theory Spec2Isabelle
  imports Complex_Main "HOL-Library.Multiset" "HOL-Library.Log_Nat"
begin

section \<open>The batch supplier \<open>DataGenerator\<close> of \<open>mcfly_datagenerator.py\<close>\<close>

text \<open>
  Conventions of the embedding.
  \<^item> Python exceptions are values of \<open>error\<close>; a method that may raise returns
    \<open>error + result\<close> with \<open>Inl\<close> for the exception.
  \<^item> Lengths, batch indices, labels and \<open>batch_size\<close> are natural numbers.
  \<^item> \<open>aug_factor\<close> is a Python float and holds the rational value of a finite double.
    The arithmetic of \<open>__len__\<close> and of the per-class quota is double arithmetic: every
    operation rounds its exact result to the nearest double, ties to even.
  \<^item> A sample is an array of shape \<open>(seqlen, n_channels)\<close>, a list of rows. The element
    type \<open>'a\<close> is left open; arithmetic on elements is used only by normalisation and
    by \<open>fit\<close>.
\<close>

datatype error =
    ZeroDivisionError
  | AssertionError
  | TypeError
  | OverflowError
  | ValueError
  | IndexError
  | LoaderFailure

type_synonym 'a sample = "'a list list"

record ('f, 'a) DataGenerator =
  filenames :: "'f list"
  labels :: "nat list"
  classes :: "nat list"
  partition_dg :: "string option"
  batch_size :: nat
  seqlen :: nat
  n_channels :: nat
  n_classes :: nat
  mean :: "'a sample option"
  std :: "'a sample option"
  shuffle :: bool
  augment :: bool
  aug_factor :: rat
  balance :: bool
  indices :: "nat list"

subsection \<open>Python floats\<close>

text \<open>
  \<open>double_exponent x\<close> is the integer \<open>e\<close> with \<open>2\<^sup>e \<le> |x| < 2\<^sup>e\<^sup>+\<^sup>1\<close>, for \<open>x \<noteq> 0\<close>: with
  \<open>|x| = p / q\<close> it is the difference of the bit lengths of \<open>p\<close> and \<open>q\<close> or one less.
\<close>

definition double_exponent :: "rat \<Rightarrow> int" where
  "double_exponent x =
     (case quotient_of \<bar>x\<bar> of
        (p, q) \<Rightarrow>
          let e0 = bitlen p - bitlen q in
          if 2 powi e0 \<le> \<bar>x\<bar> then e0 else e0 - 1)"

definition round_half_even :: "rat \<Rightarrow> int" where
  "round_half_even m =
     (let f = \<lfloor>m\<rfloor>; d = m - of_int f in
      if d < 1 / 2 then f
      else if 1 / 2 < d then f + 1
      else if even f then f else f + 1)"

text \<open>
  The nearest binary64 value, ties to even: 53 significant bits, the least exponent
  \<open>-1022\<close> (below it the spacing stays \<open>2\<^sup>-\<^sup>1\<^sup>0\<^sup>7\<^sup>4\<close>), no bound above.
\<close>

definition double_round :: "rat \<Rightarrow> rat" where
  "double_round x =
     (if x = 0 then 0
      else
        let ulp = 2 powi (max (double_exponent x) (- 1022) - 52) in
        of_int (round_half_even (x / ulp)) * ulp)"

text \<open>The value of a float; signed zeros are not told apart.\<close>

datatype pyfloat = Finite rat | PosInf | NegInf | NaN

text \<open>The float result of an operation with exact value \<open>x\<close>: rounding, overflow to infinity.\<close>

definition py_round :: "rat \<Rightarrow> pyfloat" where
  "py_round x =
     (let y = double_round x in
      if \<bar>y\<bar> < 2 ^ 1024 then Finite y
      else if 0 < x then PosInf else NegInf)"

fun py_add :: "pyfloat \<Rightarrow> pyfloat \<Rightarrow> pyfloat" where
  "py_add (Finite x) (Finite y) = py_round (x + y)"
| "py_add NaN _ = NaN"
| "py_add _ NaN = NaN"
| "py_add PosInf NegInf = NaN"
| "py_add NegInf PosInf = NaN"
| "py_add PosInf _ = PosInf"
| "py_add NegInf _ = NegInf"
| "py_add _ PosInf = PosInf"
| "py_add _ NegInf = NegInf"

fun py_neg :: "pyfloat \<Rightarrow> pyfloat" where
  "py_neg (Finite x) = Finite (- x)"
| "py_neg PosInf = NegInf"
| "py_neg NegInf = PosInf"
| "py_neg NaN = NaN"

fun py_mul :: "pyfloat \<Rightarrow> pyfloat \<Rightarrow> pyfloat" where
  "py_mul (Finite x) (Finite y) = py_round (x * y)"
| "py_mul NaN _ = NaN"
| "py_mul _ NaN = NaN"
| "py_mul (Finite x) i = (if x = 0 then NaN else if 0 < x then i else py_neg i)"
| "py_mul i (Finite y) = (if y = 0 then NaN else if 0 < y then i else py_neg i)"
| "py_mul PosInf i = i"
| "py_mul NegInf i = py_neg i"

text \<open>Division by a divisor that is not zero (a zero divisor raises before).\<close>

fun py_div :: "pyfloat \<Rightarrow> pyfloat \<Rightarrow> pyfloat" where
  "py_div (Finite x) (Finite y) = py_round (x / y)"
| "py_div NaN _ = NaN"
| "py_div _ NaN = NaN"
| "py_div (Finite x) _ = Finite 0"
| "py_div i (Finite y) = (if 0 < y then i else py_neg i)"
| "py_div PosInf PosInf = NaN"
| "py_div PosInf NegInf = NaN"
| "py_div NegInf PosInf = NaN"
| "py_div NegInf NegInf = NaN"

text \<open>Comparison of an int with a float is exact; every comparison with \<open>nan\<close> is false.\<close>

fun int_lt_float :: "int \<Rightarrow> pyfloat \<Rightarrow> bool" where
  "int_lt_float n (Finite x) = (of_int n < x)"
| "int_lt_float n PosInf = True"
| "int_lt_float n NegInf = False"
| "int_lt_float n NaN = False"

fun float_lt_int :: "pyfloat \<Rightarrow> int \<Rightarrow> bool" where
  "float_lt_int (Finite x) n = (x < of_int n)"
| "float_lt_int PosInf n = False"
| "float_lt_int NegInf n = True"
| "float_lt_int NaN n = False"

text \<open>
  An int operand of a float operation is converted first; \<open>OverflowError\<close> when it is too
  large for a double.
\<close>

definition float_of_int :: "int \<Rightarrow> error + pyfloat" where
  "float_of_int n =
     (let y = double_round (of_int n) in
      if \<bar>y\<bar> < 2 ^ 1024 then Inr (Finite y) else Inl OverflowError)"

text \<open>
  \<^verbatim>\<open>fmod(vx, wx)\<close> is exact: \<open>vx\<close> minus the multiple of \<open>wx\<close> by the quotient truncated
  towards zero.
\<close>

definition py_fmod :: "rat \<Rightarrow> rat \<Rightarrow> rat" where
  "py_fmod vx wx =
     vx - of_int (if 0 \<le> vx / wx then \<lfloor>vx / wx\<rfloor> else \<lceil>vx / wx\<rceil>) * wx"

text \<open>
  \<^verbatim>\<open>int(vx // wx)\<close> for finite floats, \<open>|wx| \<ge> 1\<close>, as CPython's \<^verbatim>\<open>float_floor_div\<close> computes it:
  \<^verbatim>\<open>mod = fmod(vx, wx); div = (vx - mod) / wx;\<close>
  \<^verbatim>\<open>if (mod) { if ((wx < 0) != (mod < 0)) { mod += wx; div -= 1.0; } }\<close>
  \<^verbatim>\<open>if (div) { floordiv = floor(div); if (div - floordiv > 0.5) floordiv += 1.0; }\<close>
  \<^verbatim>\<open>else floordiv = copysign(0.0, vx / wx);\<close>
\<close>

definition py_floordiv :: "rat \<Rightarrow> rat \<Rightarrow> int" where
  "py_floordiv vx wx =
     (let m = py_fmod vx wx;
          div0 = double_round (double_round (vx - m) / wx);
          div1 = (if m \<noteq> 0 \<and> (wx < 0) \<noteq> (m < 0) then double_round (div0 - 1) else div0)
      in
        if div1 \<noteq> 0 then
          (let floordiv = \<lfloor>div1\<rfloor> in
           if 1 / 2 < double_round (div1 - of_int floordiv)
           then \<lfloor>double_round (of_int floordiv + 1)\<rfloor>
           else floordiv)
        else 0)"

text \<open>
  \<^verbatim>\<open>int(v // w)\<close> for a float \<open>v\<close> and an int \<open>w\<close>: \<open>ZeroDivisionError\<close> for \<open>w = 0\<close>; an
  infinite or undefined \<open>v\<close> gives \<open>nan\<close>, which \<open>int\<close> rejects with \<open>ValueError\<close>.
\<close>

definition int_floordiv :: "pyfloat \<Rightarrow> nat \<Rightarrow> error + int" where
  "int_floordiv v w =
     (case float_of_int (int w) of
        Inl err \<Rightarrow> Inl err
      | Inr w' \<Rightarrow>
          (case w' of
             Finite wx \<Rightarrow>
               if wx = 0 then Inl ZeroDivisionError
               else
                 (case v of
                    Finite vx \<Rightarrow> Inr (py_floordiv vx wx)
                  | _ \<Rightarrow> Inl ValueError)
           | _ \<Rightarrow> Inl ValueError))"

subsection \<open>\<open>__len__\<close>\<close>

text \<open>
  The float \<^verbatim>\<open>len(self.filenames)*(1.0+self.aug_factor)\<close>, which the method computes twice.
\<close>

definition float_total :: "('f, 'a) DataGenerator \<Rightarrow> error + pyfloat" where
  "float_total g =
     (case float_of_int (int (length (filenames g))) of
        Inl err \<Rightarrow> Inl err
      | Inr l \<Rightarrow> Inr (py_mul l (py_add (Finite 1) (Finite (aug_factor g)))))"

text \<open>
  \<^verbatim>\<open>nbatches = int(len(self.filenames)*(1.0+self.aug_factor) // self.batch_size)\<close>
  \<^verbatim>\<open>if (nbatches * self.batch_size) < (len(self.filenames) * (1.0+self.aug_factor)): nbatches += 1\<close>
\<close>

definition len_dg :: "('f, 'a) DataGenerator \<Rightarrow> error + int" where
  "len_dg g =
     (case float_total g of
        Inl err \<Rightarrow> Inl err
      | Inr product \<Rightarrow>
          (case int_floordiv product (batch_size g) of
             Inl err \<Rightarrow> Inl err
           | Inr nbatches \<Rightarrow>
               if int_lt_float (nbatches * int (batch_size g)) product then Inr (nbatches + 1)
               else Inr nbatches))"

subsection \<open>External collaborators\<close>

text \<open>
  The loader \<^verbatim>\<open>np.load\<close>, the four transforms imported from \<^verbatim>\<open>transforms\<close> and the
  random sources (\<^verbatim>\<open>np.random\<close>, \<^verbatim>\<open>random\<close>) are parameters of the model. A failing
  load is \<open>None\<close>. The random sources are one generator state \<open>'r\<close> with an operation
  \<open>rand\<close> that yields a raw natural number and the next state; every draw of the
  program is computed from such raw numbers, so any outcome of the library calls is
  the outcome under a suitable generator.
\<close>

record ('f, 'a, 'r) env =
  np_load :: "'f \<Rightarrow> 'a sample option"
  jitter :: "'a sample list \<Rightarrow> 'a sample list"
  time_warp :: "'a sample list \<Rightarrow> 'a sample list"
  rotation :: "'a sample list \<Rightarrow> 'a sample list"
  rand_sampling :: "'a sample list \<Rightarrow> 'a sample list"
  rand :: "'r \<Rightarrow> nat \<times> 'r"

text \<open>\<^verbatim>\<open>self.aug_func = [jitter, time_warp, rotation, rand_sampling]\<close>\<close>

definition aug_func :: "('f, 'a, 'r) env \<Rightarrow> ('a sample list \<Rightarrow> 'a sample list) list" where
  "aug_func e = [jitter e, time_warp e, rotation e, rand_sampling e]"

subsection \<open>Random draws\<close>

definition remove_nth :: "nat \<Rightarrow> 'b list \<Rightarrow> 'b list" where
  "remove_nth i xs = take i xs @ drop (Suc i) xs"

text \<open>
  \<open>k\<close> elements at pairwise distinct positions of \<open>pool\<close>, in the order drawn: each
  draw removes the chosen position from the pool.
\<close>

fun draw_distinct :: "('r \<Rightarrow> nat \<times> 'r) \<Rightarrow> nat \<Rightarrow> 'b list \<Rightarrow> 'r \<Rightarrow> 'b list \<times> 'r" where
  "draw_distinct rnd 0 pool r = ([], r)"
| "draw_distinct rnd (Suc k) pool r =
     (if pool = [] then ([], r)
      else
        (case rnd r of (n, r1) \<Rightarrow>
          (case draw_distinct rnd k (remove_nth (n mod length pool) pool) r1 of
             (rest, r2) \<Rightarrow> (pool ! (n mod length pool) # rest, r2))))"

text \<open>
  \<^verbatim>\<open>np.random.choice(a, size, replace=False)\<close>: \<open>ValueError\<close> for a negative size and
  for a size larger than the population (an empty population included); an empty
  population with size 0 yields the empty array.
\<close>

definition np_random_choice ::
  "('r \<Rightarrow> nat \<times> 'r) \<Rightarrow> 'b list \<Rightarrow> int \<Rightarrow> 'r \<Rightarrow> error + ('b list \<times> 'r)" where
  "np_random_choice rnd a sz r =
     (if sz < 0 then Inl ValueError
      else if int (length a) < sz then Inl ValueError
      else Inr (draw_distinct rnd (nat sz) a r))"

text \<open>\<^verbatim>\<open>random.shuffle(x)\<close> and \<^verbatim>\<open>np.random.shuffle(x)\<close>: a permutation of \<open>x\<close>.\<close>

definition random_shuffle :: "('r \<Rightarrow> nat \<times> 'r) \<Rightarrow> 'b list \<Rightarrow> 'r \<Rightarrow> 'b list \<times> 'r" where
  "random_shuffle rnd x r = draw_distinct rnd (length x) x r"

text \<open>\<^verbatim>\<open>random.choice(seq)\<close>: one element of a sequence; \<open>IndexError\<close> on an empty one.\<close>

definition random_choice :: "('r \<Rightarrow> nat \<times> 'r) \<Rightarrow> 'b list \<Rightarrow> 'r \<Rightarrow> error + ('b \<times> 'r)" where
  "random_choice rnd seq r =
     (if seq = [] then Inl IndexError
      else (case rnd r of (n, r1) \<Rightarrow> Inr (seq ! (n mod length seq), r1)))"

subsection \<open>\<open>on_epoch_end\<close>\<close>

text \<open>
  \<^verbatim>\<open>self.indices = np.arange(len(self.filenames))\<close>
  \<^verbatim>\<open>if self.shuffle == True: np.random.shuffle(self.indices)\<close>
\<close>

definition on_epoch_end ::
  "('f, 'a, 'r) env \<Rightarrow> ('f, 'a) DataGenerator \<Rightarrow> 'r \<Rightarrow> ('f, 'a) DataGenerator \<times> 'r" where
  "on_epoch_end e g r =
     (let arange = [0..<length (filenames g)] in
      if shuffle g then
        (case random_shuffle (rand e) arange r of (p, r1) \<Rightarrow> (g\<lparr>indices := p\<rparr>, r1))
      else (g\<lparr>indices := arange\<rparr>, r))"

subsection \<open>Index selection of \<open>__getitem__\<close>\<close>

text \<open>
  Not balanced:
  \<^verbatim>\<open>st_idx = index*self.batch_size\<close>
  \<^verbatim>\<open>if (index+1)*self.batch_size <= (len(self.filenames)-1): end_idx = (index+1)*self.batch_size\<close>
  \<^verbatim>\<open>else: end_idx = len(self.filenames)\<close>
  \<^verbatim>\<open>indices = self.indices[st_idx:end_idx]\<close>
  A slice with non-negative bounds keeps the positions \<open>st_idx \<le> i < end_idx\<close> that exist.
\<close>

definition plain_indices :: "('f, 'a) DataGenerator \<Rightarrow> nat \<Rightarrow> nat list" where
  "plain_indices g index =
     (let st_idx = index * batch_size g;
          end_idx = (if int ((index + 1) * batch_size g) \<le> int (length (filenames g)) - 1
                     then (index + 1) * batch_size g
                     else length (filenames g))
      in take (end_idx - st_idx) (drop st_idx (indices g)))"

text \<open>
  Balanced:
  \<^verbatim>\<open>aug_factor = 1.0 + self.aug_factor\<close>
  \<^verbatim>\<open>cls_sz = int((self.batch_size / aug_factor) // self.n_classes)\<close>
  \<^verbatim>\<open>if cls_sz * aug_factor * self.n_classes < self.batch_size: cls_sz += 1\<close>
  A float division by zero raises \<open>ZeroDivisionError\<close>.
\<close>

definition per_class_quota :: "nat \<Rightarrow> rat \<Rightarrow> nat \<Rightarrow> error + int" where
  "per_class_quota batch_sz aug n_cls =
     (let af = py_add (Finite 1) (Finite aug) in
      case float_of_int (int batch_sz) of
        Inl err \<Rightarrow> Inl err
      | Inr bs \<Rightarrow>
          if af = Finite 0 then Inl ZeroDivisionError
          else
            (case int_floordiv (py_div bs af) n_cls of
               Inl err \<Rightarrow> Inl err
             | Inr cls_sz \<Rightarrow>
                 (case float_of_int cls_sz of
                    Inl err \<Rightarrow> Inl err
                  | Inr c \<Rightarrow>
                      (case float_of_int (int n_cls) of
                         Inl err \<Rightarrow> Inl err
                       | Inr nc \<Rightarrow>
                           if float_lt_int (py_mul (py_mul c af) nc) (int batch_sz)
                           then Inr (cls_sz + 1)
                           else Inr cls_sz))))"

definition cls_size :: "('f, 'a) DataGenerator \<Rightarrow> error + int" where
  "cls_size g = per_class_quota (batch_size g) (aug_factor g) (n_classes g)"

text \<open>
  \<^verbatim>\<open>all_indices = np.arange(len(self.filenames))\<close>
  \<^verbatim>\<open>cls_idx = all_indices[self.labels == cls]\<close>
  The mask compares every label with the loop counter \<open>cls\<close>.
\<close>

definition cls_pool :: "('f, 'a) DataGenerator \<Rightarrow> nat \<Rightarrow> nat list" where
  "cls_pool g cls = filter (\<lambda>i. labels g ! i = cls) [0..<length (filenames g)]"

text \<open>
  The loop \<^verbatim>\<open>for cls in range(len(self.classes))\<close> with body
  \<^verbatim>\<open>indices.extend(np.random.choice(cls_idx,cls_sz,replace=False))\<close>. A boolean mask
  whose length differs from the indexed array raises \<open>IndexError\<close>.
\<close>

fun balanced_picks ::
  "('r \<Rightarrow> nat \<times> 'r) \<Rightarrow> ('f, 'a) DataGenerator \<Rightarrow> int \<Rightarrow> nat list \<Rightarrow> 'r \<Rightarrow> error + (nat list \<times> 'r)" where
  "balanced_picks rnd g cls_sz [] r = Inr ([], r)"
| "balanced_picks rnd g cls_sz (cls # rest) r =
     (if length (labels g) \<noteq> length (filenames g) then Inl IndexError
      else
        (case np_random_choice rnd (cls_pool g cls) cls_sz r of
           Inl err \<Rightarrow> Inl err
         | Inr (picked, r1) \<Rightarrow>
             (case balanced_picks rnd g cls_sz rest r1 of
                Inl err \<Rightarrow> Inl err
              | Inr (others, r2) \<Rightarrow> Inr (picked @ others, r2))))"

text \<open>
  \<^verbatim>\<open>if self.augment == True: assert self.aug_factor > 0.0\<close>, the quota, the picks,
  \<^verbatim>\<open>random.shuffle(indices)\<close> and \<^verbatim>\<open>indices = indices[:self.batch_size]\<close>.
\<close>

definition balanced_indices ::
  "('f, 'a, 'r) env \<Rightarrow> ('f, 'a) DataGenerator \<Rightarrow> 'r \<Rightarrow> error + (nat list \<times> 'r)" where
  "balanced_indices e g r =
     (if augment g \<and> \<not> 0 < aug_factor g then Inl AssertionError
      else
        (case cls_size g of
           Inl err \<Rightarrow> Inl err
         | Inr cls_sz \<Rightarrow>
             (case balanced_picks (rand e) g cls_sz [0..<length (classes g)] r of
                Inl err \<Rightarrow> Inl err
              | Inr (picked, r1) \<Rightarrow>
                  (case random_shuffle (rand e) picked r1 of
                     (shuffled, r2) \<Rightarrow> Inr (take (batch_size g) shuffled, r2)))))"

subsection \<open>\<open>__data_generation\<close>\<close>

text \<open>
  \<open>X\<close> is allocated with shape \<open>(batch_size, seqlen, n_channels)\<close>, so a row stored
  into it has shape \<open>(seqlen, n_channels)\<close>. Arrays of another shape, which numpy would
  broadcast or reject, are rejected with \<open>ValueError\<close>.
\<close>

definition shape_ok :: "('f, 'a) DataGenerator \<Rightarrow> 'a sample \<Rightarrow> bool" where
  "shape_ok g x = (length x = seqlen g \<and> list_all (\<lambda>row. length row = n_channels g) x)"

text \<open>
  \<^verbatim>\<open>for i, idx in enumerate(indices):\<close>
  \<^verbatim>\<open>  X[i,] = np.load(self.filenames[idx])\<close>
  \<^verbatim>\<open>  y[i] = self.labels[idx]\<close>
  \<open>cap\<close> is the number of rows of \<open>X\<close> and \<open>y\<close>, \<open>i\<close> the position written next. The
  result is \<open>(X[:N], y[:N])\<close>.
\<close>

fun load_rows ::
  "('f, 'a, 'r) env \<Rightarrow> ('f, 'a) DataGenerator \<Rightarrow> nat \<Rightarrow> nat \<Rightarrow> nat list
     \<Rightarrow> error + ('a sample list \<times> nat list)" where
  "load_rows e g cap i [] = Inr ([], [])"
| "load_rows e g cap i (idx # rest) =
     (if length (filenames g) \<le> idx then Inl IndexError
      else
        (case np_load e (filenames g ! idx) of
           None \<Rightarrow> Inl LoaderFailure
         | Some x \<Rightarrow>
             if cap \<le> i then Inl IndexError
             else if \<not> shape_ok g x then Inl ValueError
             else if length (labels g) \<le> idx then Inl IndexError
             else
               (case load_rows e g cap (Suc i) rest of
                  Inl err \<Rightarrow> Inl err
                | Inr (X, y) \<Rightarrow> Inr (x # X, labels g ! idx # y))))"

text \<open>
  \<^verbatim>\<open>for i,idx in enumerate(aug_indices):\<close>
  \<^verbatim>\<open>  y[N+i] = self.labels[idx]\<close>
  \<^verbatim>\<open>  aug_x[i,] = np.load(self.filenames[idx])\<close>
  There are as many rows in \<open>aug_x\<close> and behind position \<open>N\<close> of \<open>y\<close> as there are
  \<open>aug_indices\<close>.
\<close>

fun load_aug_rows ::
  "('f, 'a, 'r) env \<Rightarrow> ('f, 'a) DataGenerator \<Rightarrow> nat list \<Rightarrow> error + ('a sample list \<times> nat list)" where
  "load_aug_rows e g [] = Inr ([], [])"
| "load_aug_rows e g (idx # rest) =
     (if length (labels g) \<le> idx then Inl IndexError
      else if length (filenames g) \<le> idx then Inl IndexError
      else
        (case np_load e (filenames g ! idx) of
           None \<Rightarrow> Inl LoaderFailure
         | Some x \<Rightarrow>
             if \<not> shape_ok g x then Inl ValueError
             else
               (case load_aug_rows e g rest of
                  Inl err \<Rightarrow> Inl err
                | Inr (aug_x, aug_y) \<Rightarrow> Inr (x # aug_x, labels g ! idx # aug_y))))"

text \<open>
  The augmentation branch:
  \<^verbatim>\<open>n_aug = self.batch_size - N\<close>
  \<^verbatim>\<open>aug_indices = np.random.choice(indices, n_aug, replace=False)\<close>
  the loop above, then
  \<^verbatim>\<open>aug_x = random.choice(self.aug_func)(aug_x)\<close>
  \<^verbatim>\<open>toss = random.choice([0,1])\<close>
  \<^verbatim>\<open>if toss == 1: aug_x = random.choice(self.aug_func)(aug_x)\<close>
  \<^verbatim>\<open>X[N:,] = aug_x\<close>
  The result is the tail \<open>(X[N:], y[N:])\<close>.
\<close>

definition augment_tail ::
  "('f, 'a, 'r) env \<Rightarrow> ('f, 'a) DataGenerator \<Rightarrow> nat list \<Rightarrow> 'r
     \<Rightarrow> error + (('a sample list \<times> nat list) \<times> 'r)" where
  "augment_tail e g idxs r =
     (let n_aug = int (batch_size g) - int (length idxs) in
      case np_random_choice (rand e) idxs n_aug r of
        Inl err \<Rightarrow> Inl err
      | Inr (aug_indices, r1) \<Rightarrow>
          (case load_aug_rows e g aug_indices of
             Inl err \<Rightarrow> Inl err
           | Inr (aug_x, aug_y) \<Rightarrow>
               (case random_choice (rand e) (aug_func e) r1 of
                  Inl err \<Rightarrow> Inl err
                | Inr (f1, r2) \<Rightarrow>
                    (case random_choice (rand e) [0, 1 :: nat] r2 of
                       Inl err \<Rightarrow> Inl err
                     | Inr (toss, r3) \<Rightarrow>
                         (case (if toss = 1
                                then (case random_choice (rand e) (aug_func e) r3 of
                                        Inl err \<Rightarrow> Inl err
                                      | Inr (f2, r4) \<Rightarrow> Inr (f2 (f1 aug_x), r4))
                                else Inr (f1 aug_x, r3)) of
                            Inl err \<Rightarrow> Inl err
                          | Inr (aug_x', r5) \<Rightarrow>
                              if int (length aug_x') = n_aug \<and> list_all (shape_ok g) aug_x'
                              then Inr ((aug_x', aug_y), r5)
                              else Inl ValueError)))))"

text \<open>
  Loading and augmentation, before normalisation: the arrays \<open>X\<close> and \<open>y\<close> at the
  comment \<^verbatim>\<open># Normalize data if mean and std are present\<close>. Without augmentation they
  are \<^verbatim>\<open>X[:N]\<close> and \<^verbatim>\<open>y[:N]\<close>.
\<close>

definition assemble ::
  "('f, 'a, 'r) env \<Rightarrow> ('f, 'a) DataGenerator \<Rightarrow> nat list \<Rightarrow> 'r
     \<Rightarrow> error + (('a sample list \<times> nat list) \<times> 'r)" where
  "assemble e g idxs r =
     (case load_rows e g (batch_size g) 0 idxs of
        Inl err \<Rightarrow> Inl err
      | Inr (X, y) \<Rightarrow>
          if augment g then
            (case augment_tail e g idxs r of
               Inl err \<Rightarrow> Inl err
             | Inr ((aug_x, aug_y), r1) \<Rightarrow> Inr ((X @ aug_x, y @ aug_y), r1))
          else Inr ((X, y), r))"

text \<open>
  \<^verbatim>\<open>if self.mean is not None and self.std is not None: X = (X - self.mean)/self.std\<close>
  with \<open>mean\<close> and \<open>std\<close> of shape \<open>(seqlen, n_channels)\<close> broadcast over the batch.
\<close>

definition normalize_sample :: "'a::{minus,inverse} sample \<Rightarrow> 'a sample \<Rightarrow> 'a sample \<Rightarrow> 'a sample" where
  "normalize_sample m s x =
     map2 (\<lambda>row (mrow, srow). map2 (\<lambda>v (mv, sv). (v - mv) / sv) row (zip mrow srow)) x (zip m s)"

definition normalize_batch ::
  "('f, 'a::{minus,inverse}) DataGenerator \<Rightarrow> 'a sample list \<Rightarrow> error + 'a sample list" where
  "normalize_batch g X =
     (case mean g of
        None \<Rightarrow> Inr X
      | Some m \<Rightarrow>
          (case std g of
             None \<Rightarrow> Inr X
           | Some s \<Rightarrow>
               if shape_ok g m \<and> shape_ok g s then Inr (map (normalize_sample m s) X)
               else Inl ValueError))"

text \<open>
  \<^verbatim>\<open>keras.utils.to_categorical(y, num_classes=self.n_classes)\<close>: row \<open>i\<close> is zero except for
  a one at column \<open>y[i]\<close>; a label that is no column raises \<open>IndexError\<close>.
\<close>

definition one_hot :: "nat \<Rightarrow> nat \<Rightarrow> nat list" where
  "one_hot num_classes l = map (\<lambda>c. if c = l then 1 else 0) [0..<num_classes]"

definition to_categorical :: "nat list \<Rightarrow> nat \<Rightarrow> error + nat list list" where
  "to_categorical y num_classes =
     (if list_ex (\<lambda>l. num_classes \<le> l) y then Inl IndexError
      else Inr (map (one_hot num_classes) y))"

definition data_generation ::
  "('f, 'a::{minus,inverse}, 'r) env \<Rightarrow> ('f, 'a) DataGenerator \<Rightarrow> nat list \<Rightarrow> 'r
     \<Rightarrow> error + (('a sample list \<times> nat list list) \<times> 'r)" where
  "data_generation e g idxs r =
     (case assemble e g idxs r of
        Inl err \<Rightarrow> Inl err
      | Inr ((X, y), r1) \<Rightarrow>
          (case normalize_batch g X of
             Inl err \<Rightarrow> Inl err
           | Inr Xn \<Rightarrow>
               (case to_categorical y (n_classes g) of
                  Inl err \<Rightarrow> Inl err
                | Inr yc \<Rightarrow> Inr ((Xn, yc), r1))))"

subsection \<open>\<open>__getitem__\<close>\<close>

text \<open>
  The first half of the method binds \<open>indices\<close>: the slice of \<open>self.indices\<close> when
  \<^verbatim>\<open>self.balance == False\<close>, the balanced picks otherwise. The second half is
  \<^verbatim>\<open>X, y = self.__data_generation(indices)\<close>.
\<close>

definition select_indices ::
  "('f, 'a, 'r) env \<Rightarrow> ('f, 'a) DataGenerator \<Rightarrow> nat \<Rightarrow> 'r \<Rightarrow> error + (nat list \<times> 'r)" where
  "select_indices e g index r =
     (if \<not> balance g then Inr (plain_indices g index, r)
      else balanced_indices e g r)"

definition getitem ::
  "('f, 'a::{minus,inverse}, 'r) env \<Rightarrow> ('f, 'a) DataGenerator \<Rightarrow> nat \<Rightarrow> 'r
     \<Rightarrow> error + (('a sample list \<times> nat list list) \<times> 'r)" where
  "getitem e g index r =
     (case select_indices e g index r of
        Inl err \<Rightarrow> Inl err
      | Inr (idxs, r1) \<Rightarrow> data_generation e g idxs r1)"

subsection \<open>\<open>__init__\<close>\<close>

text \<open>
  The constructor stores its arguments and calls \<^verbatim>\<open>self.on_epoch_end()\<close>; the record
  passed in holds the arguments, its \<open>indices\<close> field is overwritten.
\<close>

definition init_dg ::
  "('f, 'a, 'r) env \<Rightarrow> ('f, 'a) DataGenerator \<Rightarrow> 'r \<Rightarrow> ('f, 'a) DataGenerator \<times> 'r" where
  "init_dg e args r = on_epoch_end e args r"

subsection \<open>\<open>fit\<close>\<close>

text \<open>\<^verbatim>\<open>'train' in self.partition\<close> on a string: substring test.\<close>

fun contains :: "string \<Rightarrow> string \<Rightarrow> bool" where
  "contains pat [] = (pat = [])"
| "contains pat (c # cs) = (take (length pat) (c # cs) = pat \<or> contains pat cs)"

text \<open>
  \<^verbatim>\<open>np.empty((self.seqlen, self.n_channels))\<close> allocates without initialising: the
  contents are whatever \<open>junk\<close> the memory holds.
\<close>

definition np_empty :: "('f, 'a) DataGenerator \<Rightarrow> (nat \<Rightarrow> nat \<Rightarrow> 'a) \<Rightarrow> 'a sample" where
  "np_empty g junk = map (\<lambda>p. map (\<lambda>c. junk p c) [0..<n_channels g]) [0..<seqlen g]"

text \<open>\<^verbatim>\<open>for i in tqdm(range(N)): mean += np.load(self.filenames[i])\<close>\<close>

fun fit_pass1 ::
  "('f, 'a::field, 'r) env \<Rightarrow> ('f, 'a) DataGenerator \<Rightarrow> 'f list \<Rightarrow> 'a sample \<Rightarrow> error + 'a sample" where
  "fit_pass1 e g [] acc = Inr acc"
| "fit_pass1 e g (f # fs) acc =
     (case np_load e f of
        None \<Rightarrow> Inl LoaderFailure
      | Some x \<Rightarrow>
          if \<not> shape_ok g x then Inl ValueError
          else fit_pass1 e g fs (map2 (map2 (\<lambda>a v. a + v)) acc x))"

text \<open>
  \<^verbatim>\<open>for i in tqdm(range(N)):\<close>
  \<^verbatim>\<open>  x = np.load(self.filenames[i])\<close>
  \<^verbatim>\<open>  std += (x - mean)**2\<close>
  where \<open>mean\<close> is the local array of the first loop.
\<close>

fun fit_pass2 ::
  "('f, 'a::field, 'r) env \<Rightarrow> ('f, 'a) DataGenerator \<Rightarrow> 'f list \<Rightarrow> 'a sample \<Rightarrow> 'a sample
     \<Rightarrow> error + 'a sample" where
  "fit_pass2 e g [] mean_local acc = Inr acc"
| "fit_pass2 e g (f # fs) mean_local acc =
     (case np_load e f of
        None \<Rightarrow> Inl LoaderFailure
      | Some x \<Rightarrow>
          if \<not> shape_ok g x then Inl ValueError
          else fit_pass2 e g fs mean_local
                 (map2 (map2 (\<lambda>a d. a + d)) acc (map2 (map2 (\<lambda>v m. (v - m) ^ 2)) x mean_local)))"

text \<open>
  \<^verbatim>\<open>assert 'train' in self.partition\<close> (a \<open>TypeError\<close> when \<open>partition\<close> is \<open>None\<close>), the two
  loops, \<^verbatim>\<open>self.mean = mean/N\<close> after the first and \<^verbatim>\<open>self.std = std/N\<close> after the second.
  The local \<open>mean\<close> is not rebound by \<^verbatim>\<open>self.mean = mean/N\<close>: the second loop reads the
  accumulated sum. \<open>junk_mean\<close> and \<open>junk_std\<close> are the initial contents of the two
  \<^verbatim>\<open>np.empty\<close> arrays. Division of an array by \<open>N = 0\<close>, which numpy answers with
  \<open>nan\<close> or \<open>inf\<close>, is HOL's division by zero here.
\<close>

definition fit ::
  "('f, 'a::field, 'r) env \<Rightarrow> ('f, 'a) DataGenerator \<Rightarrow> (nat \<Rightarrow> nat \<Rightarrow> 'a) \<Rightarrow> (nat \<Rightarrow> nat \<Rightarrow> 'a)
     \<Rightarrow> error + (('a sample \<times> 'a sample) \<times> ('f, 'a) DataGenerator)" where
  "fit e g junk_mean junk_std =
     (case partition_dg g of
        None \<Rightarrow> Inl TypeError
      | Some p \<Rightarrow>
          if \<not> contains ''train'' p then Inl AssertionError
          else
            let N = length (filenames g) in
            (case fit_pass1 e g (filenames g) (np_empty g junk_mean) of
               Inl err \<Rightarrow> Inl err
             | Inr mean_local \<Rightarrow>
                 let self_mean = map (map (\<lambda>v. v / of_nat N)) mean_local in
                 (case fit_pass2 e g (filenames g) mean_local (np_empty g junk_std) of
                    Inl err \<Rightarrow> Inl err
                  | Inr std_local \<Rightarrow>
                      let self_std = map (map (\<lambda>v. v / of_nat N)) std_local in
                      Inr ((self_mean, self_std),
                           g\<lparr>mean := Some self_mean, std := Some self_std\<rparr>))))"

subsection \<open>Concrete configurations\<close>

definition len_example :: "(nat, rat) DataGenerator" where
  "len_example = \<lparr>filenames = [0, 1, 2, 3, 4, 5, 6], labels = [0, 0, 0, 0, 0, 0, 0],
     classes = [0], partition_dg = None, batch_size = 3, seqlen = 1, n_channels = 1,
     n_classes = 1, mean = None, std = None, shuffle = False, augment = False,
     aug_factor = 1 / 2, balance = False, indices = [0, 1, 2, 3, 4, 5, 6]\<rparr>"

text \<open>
  An environment whose file names are the stored arrays themselves, with four transforms
  that can be told apart, and a generator that counts its draws.
\<close>

definition env_ex :: "(rat sample, rat, nat) env" where
  "env_ex = \<lparr>np_load = Some,
     jitter = map (map (map (\<lambda>v. v + 1))),
     time_warp = map (map (map (\<lambda>v. v + 10))),
     rotation = map (map (map (\<lambda>v. v + 100))),
     rand_sampling = map (map (map (\<lambda>v. v + 1000))),
     rand = (\<lambda>s. (s, Suc s))\<rparr>"

text \<open>Four identical samples of shape \<open>(1, 1)\<close> in a training partition.\<close>

definition fit_ex :: "(rat sample, rat) DataGenerator" where
  "fit_ex = \<lparr>filenames = [[[1]], [[1]], [[1]], [[1]]], labels = [0, 0, 0, 0],
     classes = [0], partition_dg = Some ''train'', batch_size = 2, seqlen = 1, n_channels = 1,
     n_classes = 1, mean = None, std = None, shuffle = False, augment = False,
     aug_factor = 0, balance = False, indices = [0, 1, 2, 3]\<rparr>"

text \<open>Four samples of shape \<open>(1, 1)\<close>, two per class, for balanced batches of two.\<close>

definition balanced_ex :: "(rat sample, rat) DataGenerator" where
  "balanced_ex = \<lparr>filenames = [[[1]], [[2]], [[3]], [[4]]], labels = [0, 0, 1, 1],
     classes = [0, 1], partition_dg = Some ''train'', batch_size = 2, seqlen = 1,
     n_channels = 1, n_classes = 2, mean = None, std = None, shuffle = False,
     augment = False, aug_factor = 0, balance = True, indices = [0, 1, 2, 3]\<rparr>"

text \<open>The same samples with class identifiers \<open>1\<close> and \<open>2\<close> used as labels.\<close>

definition ids_ex :: "(rat sample, rat) DataGenerator" where
  "ids_ex = balanced_ex\<lparr>labels := [1, 2, 1, 2], classes := [1, 2]\<rparr>"

text \<open>The same environment with a generator whose every draw is \<open>0\<close>.\<close>

definition env_const :: "(rat sample, rat, nat) env" where
  "env_const = env_ex\<lparr>rand := (\<lambda>s. (0, s))\<rparr>"

text \<open>Plain batches of two over the four samples, normalised with mean \<open>1\<close> and std \<open>2\<close>.\<close>

definition norm_ex :: "(rat sample, rat) DataGenerator" where
  "norm_ex = balanced_ex\<lparr>balance := False, mean := Some [[1]], std := Some [[2]]\<rparr>"

text \<open>
  Balanced and augmented batches of four: one pick per class, the other half of the
  batch synthesised.
\<close>

definition aug_ex :: "(rat sample, rat) DataGenerator" where
  "aug_ex = balanced_ex\<lparr>augment := True, aug_factor := 1, batch_size := 4\<rparr>"

text \<open>
  Ten files, batches of eleven, and the augmentation fraction \<open>0.1\<close>, that is the double
  \<open>3602879701896397 / 2\<^sup>5\<^sup>5\<close>.
\<close>

definition tenth_ex :: "(nat, rat) DataGenerator" where
  "tenth_ex = len_example\<lparr>filenames := [0, 1, 2, 3, 4, 5, 6, 7, 8, 9],
     labels := [0, 0, 0, 0, 0, 0, 0, 0, 0, 0], indices := [0, 1, 2, 3, 4, 5, 6, 7, 8, 9],
     batch_size := 11, aug_factor := 3602879701896397 / 36028797018963968\<rparr>"

text \<open>A hundred files, batches of ten, and the same augmentation fraction.\<close>

definition hundred_ex :: "(nat, rat) DataGenerator" where
  "hundred_ex = tenth_ex\<lparr>filenames := replicate 100 0, labels := replicate 100 0,
     indices := [0..<100], batch_size := 10\<rparr>"

text \<open>The four samples with a class list of one entry, while \<open>n_classes\<close> stays \<open>2\<close>.\<close>

definition short_ex :: "(rat sample, rat) DataGenerator" where
  "short_ex = balanced_ex\<lparr>classes := [1]\<rparr>"

text \<open>Five samples in plain batches of two; the constructor has not run yet.\<close>

definition plain_ex :: "(rat sample, rat) DataGenerator" where
  "plain_ex = \<lparr>filenames = [[[1]], [[2]], [[3]], [[4]], [[5]]], labels = [0, 0, 1, 1, 0],
     classes = [0, 1], partition_dg = Some ''train'', batch_size = 2, seqlen = 1,
     n_channels = 1, n_classes = 2, mean = None, std = None, shuffle = False,
     augment = False, aug_factor = 0, balance = False, indices = []\<rparr>"

text \<open>
  Batches of \<open>21\<close> over five classes with the augmentation fraction \<open>0.4\<close>, that is the
  double \<open>3602879701896397 / 2\<^sup>5\<^sup>3\<close>.
\<close>

definition quota_ex :: "(nat, rat) DataGenerator" where
  "quota_ex = len_example\<lparr>batch_size := 21, n_classes := 5, classes := [0, 1, 2, 3, 4],
     balance := True, aug_factor := 3602879701896397 / 9007199254740992\<rparr>"

text \<open>
  Ten samples of shape \<open>(5, 2)\<close>, five per class, for balanced batches of four without
  augmentation; sample \<open>v\<close> holds the value \<open>v\<close> everywhere.
\<close>

definition scenario_ex :: "(rat sample, rat) DataGenerator" where
  "scenario_ex = \<lparr>filenames = map (\<lambda>v. replicate 5 [v, v]) [0, 1, 2, 3, 4, 5, 6, 7, 8, 9],
     labels = [0, 0, 0, 0, 0, 1, 1, 1, 1, 1], classes = [0, 1], partition_dg = Some ''train'',
     batch_size = 4, seqlen = 5, n_channels = 2, n_classes = 2, mean = None, std = None,
     shuffle = False, augment = False, aug_factor = 0, balance = True,
     indices = [0, 1, 2, 3, 4, 5, 6, 7, 8, 9]\<rparr>"

text \<open>
  An environment for \<open>len_example\<close>: file \<open>n\<close> holds the one-entry array \<open>[[n]]\<close>.
\<close>

definition env_nat :: "(nat, rat, nat) env" where
  "env_nat = \<lparr>np_load = (\<lambda>n. Some [[of_nat n]]),
     jitter = map (map (map (\<lambda>x. x + 1))), time_warp = map (map (map (\<lambda>x. x + 10))),
     rotation = map (map (map (\<lambda>x. x + 100))),
     rand_sampling = map (map (map (\<lambda>x. x + 1000))),
     rand = (\<lambda>s. (s, Suc s))\<rparr>"

section \<open>Which exceptions each step can raise\<close>

lemma np_random_choice_Inl: "np_random_choice rnd a sz r = Inl err \<Longrightarrow> err = ValueError"
  by (auto simp: np_random_choice_def split: if_splits)

lemma random_choice_Inl: "random_choice rnd xs r = Inl err \<Longrightarrow> err = IndexError"
  by (auto simp: random_choice_def split: if_splits prod.splits)

lemma float_of_int_Inl: "float_of_int n = Inl err \<Longrightarrow> err = OverflowError"
  by (auto simp: float_of_int_def Let_def split: if_splits)

lemma int_floordiv_Inl: "int_floordiv v w = Inl err \<Longrightarrow> err \<noteq> AssertionError"
  by (auto simp: int_floordiv_def split: sum.splits pyfloat.splits if_splits
      dest: float_of_int_Inl)

lemma cls_size_Inl: "cls_size g = Inl err \<Longrightarrow> err \<noteq> AssertionError"
  by (auto simp: cls_size_def per_class_quota_def Let_def split: sum.splits if_splits
      dest: float_of_int_Inl int_floordiv_Inl)

lemma balanced_picks_Inl:
  "balanced_picks rnd g k cs r = Inl err \<Longrightarrow> err = ValueError \<or> err = IndexError"
proof (induction cs arbitrary: r err)
  case Nil
  then show ?case by simp
next
  case (Cons c cs)
  then show ?case
    by (auto split: if_splits sum.splits prod.splits dest: np_random_choice_Inl)
qed

lemma load_rows_Inl:
  "load_rows e g cap i idxs = Inl err \<Longrightarrow> err \<noteq> AssertionError"
  by (induction idxs arbitrary: i err) (auto split: if_splits sum.splits option.splits prod.splits)

lemma load_aug_rows_Inl:
  "load_aug_rows e g idxs = Inl err \<Longrightarrow> err \<noteq> AssertionError"
  by (induction idxs arbitrary: err) (auto split: if_splits sum.splits option.splits prod.splits)

lemma augment_tail_Inl:
  "augment_tail e g idxs r = Inl err \<Longrightarrow> err \<noteq> AssertionError"
  unfolding augment_tail_def Let_def
  by (auto split: if_splits sum.splits prod.splits
      dest: np_random_choice_Inl random_choice_Inl load_aug_rows_Inl)

lemma assemble_Inl:
  "assemble e g idxs r = Inl err \<Longrightarrow> err \<noteq> AssertionError"
  unfolding assemble_def
  by (auto split: if_splits sum.splits prod.splits dest: load_rows_Inl augment_tail_Inl)

lemma normalize_batch_Inl: "normalize_batch g X = Inl err \<Longrightarrow> err = ValueError"
  by (auto simp: normalize_batch_def split: option.splits if_splits)

lemma to_categorical_Inl: "to_categorical y n = Inl err \<Longrightarrow> err = IndexError"
  by (auto simp: to_categorical_def split: if_splits)

lemma data_generation_Inl:
  "data_generation e g idxs r = Inl err \<Longrightarrow> err \<noteq> AssertionError"
  unfolding data_generation_def
  by (auto split: sum.splits prod.splits
      dest: assemble_Inl normalize_batch_Inl to_categorical_Inl)

section \<open>The balanced picks\<close>

lemma balanced_picks_deficient:
  assumes "length (labels g) = length (filenames g)"
    and "c \<in> set cs" and "int (length (cls_pool g c)) < k"
  shows "balanced_picks rnd g k cs r = Inl ValueError"
  using assms(2)
proof (induction cs arbitrary: r)
  case Nil
  then show ?case by simp
next
  case (Cons d cs)
  show ?case
  proof (cases "np_random_choice rnd (cls_pool g d) k r")
    case (Inl err)
    then have "err = ValueError" by (rule np_random_choice_Inl)
    with Inl assms(1) show ?thesis by simp
  next
    case (Inr p)
    obtain picked r1 where p: "p = (picked, r1)" by (cases p)
    have "d \<noteq> c"
    proof
      assume "d = c"
      with assms(3) have "np_random_choice rnd (cls_pool g d) k r = Inl ValueError"
        by (simp add: np_random_choice_def)
      with Inr show False by simp
    qed
    with Cons.prems have "c \<in> set cs" by simp
    then have "balanced_picks rnd g k cs r1 = Inl ValueError" by (rule Cons.IH)
    with Inr p assms(1) show ?thesis by simp
  qed
qed

section \<open>Fields that batch generation does not read\<close>

lemma cls_pool_state [simp]:
  "cls_pool (g\<lparr>indices := p, shuffle := s\<rparr>) c = cls_pool g c"
  by (simp add: cls_pool_def)

lemma shape_ok_state [simp]:
  "shape_ok (g\<lparr>indices := p, shuffle := s\<rparr>) = shape_ok g"
  by (rule ext) (simp add: shape_ok_def)

lemma balanced_picks_state [simp]:
  "balanced_picks rnd (g\<lparr>indices := p, shuffle := s\<rparr>) k cs r = balanced_picks rnd g k cs r"
  by (induction cs arbitrary: r) (simp_all split: sum.splits prod.splits)

lemma cls_size_state [simp]:
  "cls_size (g\<lparr>indices := p, shuffle := s\<rparr>) = cls_size g"
  by (simp add: cls_size_def)

lemma balanced_indices_state [simp]:
  "balanced_indices e (g\<lparr>indices := p, shuffle := s\<rparr>) r = balanced_indices e g r"
  by (simp add: balanced_indices_def split: sum.splits prod.splits)

lemma load_rows_state [simp]:
  "load_rows e (g\<lparr>indices := p, shuffle := s\<rparr>) cap i idxs = load_rows e g cap i idxs"
  by (induction idxs arbitrary: i) (simp_all split: sum.splits prod.splits option.splits)

lemma load_aug_rows_state [simp]:
  "load_aug_rows e (g\<lparr>indices := p, shuffle := s\<rparr>) idxs = load_aug_rows e g idxs"
  by (induction idxs) (simp_all split: sum.splits prod.splits option.splits)

lemma augment_tail_state [simp]:
  "augment_tail e (g\<lparr>indices := p, shuffle := s\<rparr>) idxs r = augment_tail e g idxs r"
  by (simp add: augment_tail_def Let_def split: sum.splits prod.splits)

lemma assemble_state [simp]:
  "assemble e (g\<lparr>indices := p, shuffle := s\<rparr>) idxs r = assemble e g idxs r"
  by (simp add: assemble_def split: sum.splits prod.splits)

lemma normalize_batch_state [simp]:
  "normalize_batch (g\<lparr>indices := p, shuffle := s\<rparr>) X = normalize_batch g X"
  by (simp add: normalize_batch_def split: option.splits)

lemma data_generation_state [simp]:
  "data_generation e (g\<lparr>indices := p, shuffle := s\<rparr>) idxs r = data_generation e g idxs r"
  by (simp add: data_generation_def split: sum.splits prod.splits)

lemma on_epoch_end_indices:
  "\<exists>p. fst (on_epoch_end e g r) = g\<lparr>indices := p, shuffle := shuffle g\<rparr>"
  by (auto simp: on_epoch_end_def Let_def split: prod.splits)

section \<open>Shapes and normalisation\<close>

lemma shape_ok_row: "shape_ok g x \<Longrightarrow> p < seqlen g \<Longrightarrow> length (x ! p) = n_channels g"
  by (simp add: shape_ok_def list_all_length)

lemma normalize_sample_nth:
  assumes "shape_ok g m" "shape_ok g s" "shape_ok g x" "p < seqlen g" "c < n_channels g"
  shows "normalize_sample m s x ! p ! c = (x ! p ! c - m ! p ! c) / s ! p ! c"
proof -
  have l: "length m = seqlen g" "length s = seqlen g" "length x = seqlen g"
    using assms by (simp_all add: shape_ok_def)
  have r: "length (m ! p) = n_channels g" "length (s ! p) = n_channels g"
    "length (x ! p) = n_channels g"
    using assms by (simp_all add: shape_ok_row)
  have "normalize_sample m s x ! p
      = map2 (\<lambda>v (mv, sv). (v - mv) / sv) (x ! p) (zip (m ! p) (s ! p))"
    using l assms(4) by (simp add: normalize_sample_def)
  then show ?thesis using r assms(5) by simp
qed

lemma normalize_sample_shape:
  assumes "shape_ok g m" "shape_ok g s" "shape_ok g x"
  shows "shape_ok g (normalize_sample m s x)"
  using assms by (auto simp: shape_ok_def normalize_sample_def list_all_length)

lemma load_rows_shapes:
  "load_rows e g cap i idxs = Inr (X, y) \<Longrightarrow> list_all (shape_ok g) X"
  by (induction idxs arbitrary: i X y)
     (auto split: if_splits option.splits sum.splits prod.splits)

lemma augment_tail_shapes:
  "augment_tail e g idxs r = Inr ((aug_x, aug_y), r') \<Longrightarrow> list_all (shape_ok g) aug_x"
  unfolding augment_tail_def Let_def
  by (auto split: if_splits sum.splits prod.splits)

lemma assemble_shapes:
  "assemble e g idxs r = Inr ((X, y), r') \<Longrightarrow> list_all (shape_ok g) X"
  unfolding assemble_def
  by (auto split: if_splits sum.splits prod.splits dest: load_rows_shapes augment_tail_shapes)

lemma data_generation_normalized:
  assumes "data_generation e g idxs r = Inr ((X, y), r')"
  shows "\<exists>Xraw yraw. assemble e g idxs r = Inr ((Xraw, yraw), r')
      \<and> length X = length Xraw
      \<and> (mean g = None \<or> std g = None \<longrightarrow> X = Xraw)
      \<and> (\<forall>m s. mean g = Some m \<and> std g = Some s \<longrightarrow>
            (\<forall>b < length X. \<forall>p < seqlen g. \<forall>c < n_channels g.
               X ! b ! p ! c = (Xraw ! b ! p ! c - m ! p ! c) / s ! p ! c))"
proof -
  from assms obtain Xraw yraw where
    a: "assemble e g idxs r = Inr ((Xraw, yraw), r')" and n: "normalize_batch g Xraw = Inr X"
    unfolding data_generation_def by (auto split: sum.splits prod.splits)
  have sh: "list_all (shape_ok g) Xraw" using a by (rule assemble_shapes)
  have len: "length X = length Xraw"
    using n by (auto simp: normalize_batch_def split: option.splits if_splits)
  have none: "X = Xraw" if "mean g = None \<or> std g = None"
    using n that by (auto simp: normalize_batch_def split: option.splits if_splits)
  have some: "X ! b ! p ! c = (Xraw ! b ! p ! c - m ! p ! c) / s ! p ! c"
    if "mean g = Some m" "std g = Some s" "b < length X" "p < seqlen g" "c < n_channels g"
    for m s b p c
  proof -
    from n that(1,2) have ok: "shape_ok g m" "shape_ok g s"
      and X: "X = map (normalize_sample m s) Xraw"
      by (auto simp: normalize_batch_def split: if_splits)
    have "shape_ok g (Xraw ! b)" using sh that(3) len by (simp add: list_all_length)
    then show ?thesis using X ok that len by (simp add: normalize_sample_nth)
  qed
  show ?thesis
  proof (intro exI conjI)
    show "assemble e g idxs r = Inr ((Xraw, yraw), r')" by (rule a)
    show "length X = length Xraw" by (rule len)
    show "mean g = None \<or> std g = None \<longrightarrow> X = Xraw" using none by simp
    show "\<forall>m s. mean g = Some m \<and> std g = Some s \<longrightarrow>
            (\<forall>b < length X. \<forall>p < seqlen g. \<forall>c < n_channels g.
               X ! b ! p ! c = (Xraw ! b ! p ! c - m ! p ! c) / s ! p ! c)"
      using some by simp
  qed
qed

section \<open>Draws without replacement and loaded rows\<close>

lemma mset_remove_nth:
  "i < length xs \<Longrightarrow> add_mset (xs ! i) (mset (remove_nth i xs)) = mset xs"
proof -
  assume "i < length xs"
  then have "xs = take i xs @ xs ! i # drop (Suc i) xs" by (rule id_take_nth_drop)
  then have "mset xs = mset (take i xs @ xs ! i # drop (Suc i) xs)" by simp
  then show ?thesis by (simp add: remove_nth_def)
qed

lemma length_remove_nth: "i < length xs \<Longrightarrow> length (remove_nth i xs) = length xs - 1"
  by (auto simp: remove_nth_def)

lemma draw_distinct_picks:
  "draw_distinct rnd k pool r = (picks, r')
   \<Longrightarrow> mset picks \<subseteq># mset pool \<and> length picks = min k (length pool)"
proof (induction k arbitrary: pool r picks r')
  case 0
  then show ?case by simp
next
  case (Suc k)
  show ?case
  proof (cases "pool = []")
    case True
    with Suc.prems show ?thesis by simp
  next
    case False
    obtain n r1 where n: "rnd r = (n, r1)" by (cases "rnd r")
    define i where "i = n mod length pool"
    have i: "i < length pool" using False by (simp add: i_def)
    obtain rest r2 where d: "draw_distinct rnd k (remove_nth i pool) r1 = (rest, r2)"
      by (cases "draw_distinct rnd k (remove_nth i pool) r1")
    from Suc.prems False n d have p: "picks = pool ! i # rest"
      by (simp add: i_def)
    from Suc.IH [OF d] have ih: "mset rest \<subseteq># mset (remove_nth i pool)"
      "length rest = min k (length (remove_nth i pool))" by simp_all
    have "add_mset (pool ! i) (mset rest) \<subseteq># add_mset (pool ! i) (mset (remove_nth i pool))"
      using ih(1) by simp
    then have "mset picks \<subseteq># mset pool" using p mset_remove_nth [OF i] by simp
    moreover have "length picks = min (Suc k) (length pool)"
      using p ih(2) i by (simp add: length_remove_nth)
    ultimately show ?thesis by simp
  qed
qed

lemma np_random_choice_picks:
  assumes "np_random_choice rnd a sz r = Inr (picks, r')"
  shows "0 \<le> sz \<and> sz \<le> int (length a) \<and> length picks = nat sz \<and> mset picks \<subseteq># mset a"
proof -
  from assms have s: "0 \<le> sz" "sz \<le> int (length a)"
    and d: "draw_distinct rnd (nat sz) a r = (picks, r')"
    by (auto simp: np_random_choice_def split: if_splits)
  from draw_distinct_picks [OF d] s show ?thesis by auto
qed

lemma random_shuffle_perm:
  assumes "random_shuffle rnd x r = (shuffled, r')"
  shows "mset shuffled = mset x"
proof -
  from assms have "mset shuffled \<subseteq># mset x \<and> length shuffled = min (length x) (length x)"
    unfolding random_shuffle_def by (rule draw_distinct_picks)
  then have "mset shuffled \<subseteq># mset x" "size (mset shuffled) = size (mset x)" by simp_all
  then show ?thesis by (metis mset_subset_size subset_mset.less_le less_irrefl)
qed

lemma random_choice_member:
  "random_choice rnd xs r = Inr (x, r') \<Longrightarrow> x \<in> set xs"
  by (auto simp: random_choice_def split: if_splits prod.splits)

lemma load_rows_result:
  "load_rows e g cap i idxs = Inr (X, y)
   \<Longrightarrow> map (\<lambda>idx. np_load e (filenames g ! idx)) idxs = map Some X
     \<and> y = map (\<lambda>idx. labels g ! idx) idxs
     \<and> length idxs \<le> cap - i"
proof (induction idxs arbitrary: i X y)
  case Nil
  then show ?case by simp
next
  case (Cons idx idxs)
  from Cons.prems obtain x X' y' where
    x: "np_load e (filenames g ! idx) = Some x" "i < cap"
    and rec: "load_rows e g cap (Suc i) idxs = Inr (X', y')"
    and res: "X = x # X'" "y = labels g ! idx # y'"
    by (auto split: if_splits option.splits sum.splits prod.splits)
  from Cons.IH [OF rec] x res show ?case by auto
qed

lemma load_aug_rows_result:
  "load_aug_rows e g idxs = Inr (X, y)
   \<Longrightarrow> map (\<lambda>idx. np_load e (filenames g ! idx)) idxs = map Some X
     \<and> y = map (\<lambda>idx. labels g ! idx) idxs"
proof (induction idxs arbitrary: X y)
  case Nil
  then show ?case by simp
next
  case (Cons idx idxs)
  from Cons.prems obtain x X' y' where
    x: "np_load e (filenames g ! idx) = Some x"
    and rec: "load_aug_rows e g idxs = Inr (X', y')"
    and res: "X = x # X'" "y = labels g ! idx # y'"
    by (auto split: if_splits option.splits sum.splits prod.splits)
  from Cons.IH [OF rec] x res show ?case by simp
qed

section \<open>The augmentation tail\<close>

lemma augment_tail_result:
  assumes "augment_tail e g idxs r = Inr ((aug_x, aug_y), r')"
  shows "\<exists>aug_indices ra A f1 rb toss rc.
      length idxs \<le> batch_size g
      \<and> np_random_choice (rand e) idxs (int (batch_size g) - int (length idxs)) r
          = Inr (aug_indices, ra)
      \<and> length aug_indices = batch_size g - length idxs
      \<and> mset aug_indices \<subseteq># mset idxs
      \<and> map (\<lambda>idx. np_load e (filenames g ! idx)) aug_indices = map Some A
      \<and> aug_y = map (\<lambda>idx. labels g ! idx) aug_indices
      \<and> random_choice (rand e) (aug_func e) ra = Inr (f1, rb)
      \<and> f1 \<in> set (aug_func e)
      \<and> random_choice (rand e) [0, 1 :: nat] rb = Inr (toss, rc)
      \<and> (if toss = 1
          then \<exists>f2. random_choice (rand e) (aug_func e) rc = Inr (f2, r')
                 \<and> f2 \<in> set (aug_func e) \<and> aug_x = f2 (f1 A)
          else aug_x = f1 A \<and> r' = rc)
      \<and> length aug_x = batch_size g - length idxs"
proof -
  define n_aug where "n_aug = int (batch_size g) - int (length idxs)"
  from assms obtain aug_indices ra where
    c: "np_random_choice (rand e) idxs n_aug r = Inr (aug_indices, ra)"
    unfolding augment_tail_def Let_def n_aug_def
    by (auto split: sum.splits prod.splits)
  from assms c obtain A where
    l: "load_aug_rows e g aug_indices = Inr (A, aug_y)"
    unfolding augment_tail_def Let_def n_aug_def
    by (auto split: sum.splits prod.splits if_splits)
  from assms c l obtain f1 rb where
    f1: "random_choice (rand e) (aug_func e) ra = Inr (f1, rb)"
    unfolding augment_tail_def Let_def n_aug_def
    by (auto split: sum.splits prod.splits if_splits)
  from assms c l f1 obtain toss rc where
    t: "random_choice (rand e) [0, 1 :: nat] rb = Inr (toss, rc)"
    unfolding augment_tail_def Let_def n_aug_def
    by (auto split: sum.splits prod.splits if_splits)
  have len: "int (length aug_x) = n_aug"
    using assms c l f1 t unfolding augment_tail_def Let_def n_aug_def
    by (auto split: sum.splits prod.splits if_splits)
  have coin: "if toss = 1
          then \<exists>f2. random_choice (rand e) (aug_func e) rc = Inr (f2, r')
                 \<and> f2 \<in> set (aug_func e) \<and> aug_x = f2 (f1 A)
          else aug_x = f1 A \<and> r' = rc"
  proof (cases "toss = 1")
    case True
    with assms c l f1 t obtain f2 where
      f2: "random_choice (rand e) (aug_func e) rc = Inr (f2, r')" and x: "aug_x = f2 (f1 A)"
      unfolding augment_tail_def Let_def n_aug_def
      by (auto split: sum.splits prod.splits if_splits)
    from random_choice_member [OF f2] f2 x True show ?thesis by auto
  next
    case False
    with assms c l f1 t have "aug_x = f1 A \<and> r' = rc"
      unfolding augment_tail_def Let_def n_aug_def
      by (auto split: sum.splits prod.splits if_splits)
    with False show ?thesis by simp
  qed
  from np_random_choice_picks [OF c] have
    p: "0 \<le> n_aug" "length aug_indices = nat n_aug" "mset aug_indices \<subseteq># mset idxs"
    by simp_all
  from p(1) have le: "length idxs \<le> batch_size g" by (simp add: n_aug_def)
  then have n: "nat n_aug = batch_size g - length idxs" by (simp add: n_aug_def)
  from load_aug_rows_result [OF l] have
    r: "map (\<lambda>idx. np_load e (filenames g ! idx)) aug_indices = map Some A"
    "aug_y = map (\<lambda>idx. labels g ! idx) aug_indices" by simp_all
  have lx: "length aug_x = batch_size g - length idxs" using len n p(1) by linarith
  have c': "np_random_choice (rand e) idxs (int (batch_size g) - int (length idxs)) r
      = Inr (aug_indices, ra)"
    using c by (simp add: n_aug_def)
  show ?thesis
    by (rule exI [of _ aug_indices], rule exI [of _ ra], rule exI [of _ A],
        rule exI [of _ f1], rule exI [of _ rb], rule exI [of _ toss], rule exI [of _ rc])
       (use le c' p n r f1 t coin lx random_choice_member [OF f1] in simp)
qed

section \<open>Rounding to a double\<close>

lemma two_powi_pos: "0 < (2 :: rat) powi k"
  by (rule zero_less_power_int) simp

lemma two_powi_less: "k < l \<Longrightarrow> (2 :: rat) powi k < 2 powi l"
  by (rule power_int_strict_increasing) simp_all

lemma two_powi_less_cancel: "(2 :: rat) powi k < 2 powi l \<Longrightarrow> k < l"
proof (rule ccontr)
  assume a: "(2 :: rat) powi k < 2 powi l" and "\<not> k < l"
  then have "l \<le> k" by simp
  then have "(2 :: rat) powi l \<le> 2 powi k" by (rule power_int_increasing) simp
  with a show False by simp
qed

lemma bitlen_powi_bounds:
  assumes "0 < p"
  shows "(2 :: rat) powi (bitlen p - 1) \<le> of_int p" and "of_int p < (2 :: rat) powi (bitlen p)"
proof -
  from bitlen_bounds [OF assms] have
    lo: "2 ^ nat (bitlen p - 1) \<le> p" and hi: "p < 2 ^ nat (bitlen p)" by simp_all
  have b1: "1 \<le> bitlen p" using assms by (auto simp: bitlen_alt_def)
  have "(of_int (2 ^ nat (bitlen p - 1)) :: rat) \<le> of_int p" using lo by (simp only: of_int_le_iff)
  then show "(2 :: rat) powi (bitlen p - 1) \<le> of_int p"
    using b1 by (simp add: power_int_nonneg_exp)
  have "(of_int p :: rat) < of_int (2 ^ nat (bitlen p))" using hi by (simp only: of_int_less_iff)
  then show "of_int p < (2 :: rat) powi (bitlen p)"
    using b1 by (simp add: power_int_nonneg_exp)
qed

lemma double_exponent_bounds:
  assumes "x \<noteq> 0"
  shows "2 powi (double_exponent x) \<le> \<bar>x\<bar> \<and> \<bar>x\<bar> < 2 powi (double_exponent x + 1)"
proof -
  obtain p q where pq: "quotient_of \<bar>x\<bar> = (p, q)" by (cases "quotient_of \<bar>x\<bar>")
  have q: "0 < q" using pq by (rule quotient_of_denom_pos)
  have x: "\<bar>x\<bar> = of_int p / of_int q" using pq by (rule quotient_of_div)
  have xpos: "0 < \<bar>x\<bar>" using assms by simp
  have p: "0 < p"
  proof (rule ccontr)
    assume "\<not> 0 < p"
    then have "(of_int p :: rat) \<le> 0" by simp
    then have "of_int p / (of_int q :: rat) \<le> 0" using q by (simp add: divide_le_0_iff)
    with x xpos show False by simp
  qed
  define e0 where "e0 = bitlen p - bitlen q"
  have qr: "0 < (of_int q :: rat)" using q by simp
  have up: "\<bar>x\<bar> < 2 powi (e0 + 1)"
  proof -
    have "of_int p < (2 :: rat) powi (bitlen p)" using p by (rule bitlen_powi_bounds)
    also have "\<dots> = 2 powi (e0 + 1) * 2 powi (bitlen q - 1)"
      by (simp add: e0_def flip: power_int_add)
    also have "\<dots> \<le> 2 powi (e0 + 1) * of_int q"
      using bitlen_powi_bounds(1) [OF q] two_powi_pos [of "e0 + 1"]
      by (intro mult_left_mono) simp_all
    finally show ?thesis using qr by (simp add: x pos_divide_less_eq)
  qed
  have lo: "2 powi (e0 - 1) < \<bar>x\<bar>"
  proof -
    have "2 powi (e0 - 1) * of_int q < (2 :: rat) powi (e0 - 1) * 2 powi (bitlen q)"
      using bitlen_powi_bounds(2) [OF q] two_powi_pos [of "e0 - 1"]
      by (intro mult_strict_left_mono) simp_all
    also have "\<dots> = 2 powi (bitlen p - 1)"
      by (simp add: e0_def flip: power_int_add)
    also have "\<dots> \<le> of_int p" using p by (rule bitlen_powi_bounds)
    finally show ?thesis using qr by (simp add: x pos_less_divide_eq)
  qed
  show ?thesis
  proof (cases "2 powi e0 \<le> \<bar>x\<bar>")
    case True
    then have "double_exponent x = e0"
      using pq by (simp add: double_exponent_def e0_def Let_def)
    with True up show ?thesis by simp
  next
    case False
    then have "double_exponent x = e0 - 1"
      using pq by (simp add: double_exponent_def e0_def Let_def)
    with False lo show ?thesis by simp
  qed
qed

lemma double_exponent_eqI:
  assumes "2 powi e \<le> \<bar>x\<bar>" and "\<bar>x\<bar> < 2 powi (e + 1)"
  shows "double_exponent x = e"
proof -
  have "0 < \<bar>x\<bar>" using assms(1) two_powi_pos [of e] by (rule less_le_trans [rotated])
  then have "x \<noteq> 0" by simp
  from double_exponent_bounds [OF this] have
    b: "2 powi (double_exponent x) \<le> \<bar>x\<bar>" "\<bar>x\<bar> < 2 powi (double_exponent x + 1)" by simp_all
  from assms(1) b(2) have "(2 :: rat) powi e < 2 powi (double_exponent x + 1)" by simp
  then have "e < double_exponent x + 1" by (rule two_powi_less_cancel)
  moreover from b(1) assms(2) have "(2 :: rat) powi (double_exponent x) < 2 powi (e + 1)" by simp
  then have "double_exponent x < e + 1" by (rule two_powi_less_cancel)
  ultimately show ?thesis by simp
qed

lemma round_half_even_of_int [simp]: "round_half_even (of_int n) = n"
  by (simp add: round_half_even_def)

lemma double_round_eq:
  assumes "2 powi e \<le> \<bar>x\<bar>" and "\<bar>x\<bar> < 2 powi (e + 1)" and "- 1022 \<le> e"
  shows "double_round x = of_int (round_half_even (x / 2 powi (e - 52))) * 2 powi (e - 52)"
proof -
  have "0 < \<bar>x\<bar>" using assms(1) two_powi_pos [of e] by (rule less_le_trans [rotated])
  then have "x \<noteq> 0" by simp
  moreover have "double_exponent x = e" using assms(1,2) by (rule double_exponent_eqI)
  ultimately show ?thesis using assms(3) by (simp add: double_round_def Let_def max_def)
qed

lemma double_round_of_int:
  assumes "\<bar>n\<bar> \<le> 2 ^ 53"
  shows "double_round (of_int n) = of_int n"
proof (cases "n = 0")
  case True
  then show ?thesis by (simp add: double_round_def)
next
  case False
  define x :: rat where "x = of_int n"
  define k where "k = max (double_exponent x) (- 1022) - 52"
  have x0: "x \<noteq> 0" using False by (simp add: x_def)
  have "2 powi (double_exponent x) \<le> \<bar>x\<bar>" using double_exponent_bounds [OF x0] by simp
  also have "\<bar>x\<bar> \<le> 2 ^ 53"
  proof -
    have "(of_int \<bar>n\<bar> :: rat) \<le> of_int (2 ^ 53)" using assms by (simp only: of_int_le_iff)
    then show ?thesis by (simp add: x_def)
  qed
  also have "(2 :: rat) ^ 53 < 2 powi 54" by simp
  finally have "double_exponent x < 54" by (rule two_powi_less_cancel)
  moreover have "1 \<le> \<bar>x\<bar>"
  proof -
    have "1 \<le> \<bar>n\<bar>" using False by simp
    then have "(of_int 1 :: rat) \<le> of_int \<bar>n\<bar>" by (simp only: of_int_le_iff)
    then show ?thesis by (simp add: x_def)
  qed
  ultimately have k: "k \<le> 1" by (simp add: k_def)
  show ?thesis
  proof (cases "k \<le> 0")
    case True
    define j where "j = nat (- k)"
    have kj: "k = - int j" using True by (simp add: j_def)
    have u: "(2 :: rat) powi k = 1 / 2 ^ j" by (simp add: kj power_int_minus_divide)
    have "x / 2 powi k = of_int (n * 2 ^ j)" by (simp add: u x_def)
    then have "round_half_even (x / 2 powi k) = n * 2 ^ j" by (simp only: round_half_even_of_int)
    then have "of_int (round_half_even (x / 2 powi k)) * 2 powi k = x"
      by (simp add: u x_def)
    then show ?thesis using x0 unfolding x_def [symmetric] by (simp add: double_round_def Let_def k_def)
  next
    case False
    with k have k1: "k = 1" by simp
    then have e: "double_exponent x = 53" by (simp add: k_def max_def split: if_splits)
    from double_exponent_bounds [OF x0] e have "2 ^ 53 \<le> \<bar>x\<bar>" by simp
    with \<open>\<bar>x\<bar> \<le> 2 ^ 53\<close> have ax: "\<bar>x\<bar> = 2 ^ 53" by simp
    then have "x = 2 ^ 53 \<or> x = - (2 ^ 53)" by (simp add: abs_if split: if_splits)
    then have "of_int (round_half_even (x / 2 powi k)) * 2 powi k = x"
      by (auto simp: k1 round_half_even_def)
    then show ?thesis using x0 unfolding x_def [symmetric] by (simp add: double_round_def Let_def k_def)
  qed
qed

lemma float_of_int_small:
  assumes "\<bar>n\<bar> \<le> 2 ^ 53"
  shows "float_of_int n = Inr (Finite (of_int n))"
proof -
  have "(of_int \<bar>n\<bar> :: rat) \<le> of_int (2 ^ 53)" using assms by (simp only: of_int_le_iff)
  then have "\<bar>of_int n :: rat\<bar> \<le> 2 ^ 53" by simp
  also have "(2 :: rat) ^ 53 < 2 ^ 1024" by simp
  finally show ?thesis using double_round_of_int [OF assms] by (simp add: float_of_int_def)
qed

lemma py_round_of_int:
  assumes "\<bar>n\<bar> \<le> 2 ^ 53"
  shows "py_round (of_int n) = Finite (of_int n)"
proof -
  have "(of_int \<bar>n\<bar> :: rat) \<le> of_int (2 ^ 53)" using assms by (simp only: of_int_le_iff)
  then have "\<bar>of_int n :: rat\<bar> \<le> 2 ^ 53" by simp
  also have "(2 :: rat) ^ 53 < 2 ^ 1024" by simp
  finally show ?thesis using double_round_of_int [OF assms] by (simp add: py_round_def)
qed

lemma py_floordiv_exact:
  assumes "0 \<le> vx" and "vx < 2 ^ 53" and "0 < b" and "int b < 2 ^ 53"
  shows "py_floordiv vx (of_nat b) = \<lfloor>vx / of_nat b\<rfloor>"
proof -
  define w :: rat where "w = of_nat b"
  define q where "q = \<lfloor>vx / w\<rfloor>"
  have w: "0 < w" using assms(3) by (simp add: w_def)
  have w1: "1 \<le> w" using assms(3) by (simp add: w_def)
  have quot: "0 \<le> vx / w" using assms(1) w by simp
  then have q0: "0 \<le> q" by (simp add: q_def)
  have "of_int q \<le> vx / w" by (simp add: q_def)
  then have qw: "of_int q * w \<le> vx" using w by (simp add: pos_le_divide_eq)
  have m: "py_fmod vx w = vx - of_int q * w"
    using quot by (simp add: py_fmod_def q_def)
  have m0: "0 \<le> py_fmod vx w" using qw by (simp add: m)
  have qwi: "of_int q * w = of_int (q * int b)" by (simp add: w_def)
  have "of_int q * w < 2 ^ 53" using qw assms(2) by (rule le_less_trans)
  then have "(of_int (q * int b) :: rat) < of_int (2 ^ 53)"
    by (simp add: w_def)
  then have lt: "q * int b < 2 ^ 53" by (simp only: of_int_less_iff)
  have qb0: "0 \<le> q * int b" using q0 by simp
  have r1: "double_round (of_int (q * int b)) = of_int (q * int b)"
    using lt qb0 by (intro double_round_of_int) simp
  have "q * 1 \<le> q * int b" using q0 assms(3) by (intro mult_left_mono) simp_all
  then have qlt: "q < 2 ^ 53" using lt by simp
  have r2: "double_round (of_int q) = of_int q"
    using qlt q0 by (intro double_round_of_int) simp
  have d0: "double_round (double_round (vx - py_fmod vx w) / w) = of_int q"
  proof -
    have "vx - py_fmod vx w = of_int (q * int b)" by (simp add: m qwi)
    then have "double_round (vx - py_fmod vx w) / w = of_int (q * int b) / w"
      by (simp only: r1)
    also have "\<dots> = of_int q" using w by (simp add: w_def)
    finally show ?thesis by (simp only: r2)
  qed
  have wn: "(w < 0) = False" using w by simp
  have mn: "(py_fmod vx w < 0) = False" using m0 by simp
  have z: "double_round 0 = 0" by (simp add: double_round_def)
  have "py_floordiv vx w = q"
    unfolding py_floordiv_def Let_def d0 wn mn by (simp add: z)
  then show ?thesis by (simp add: w_def q_def)
qed

lemma int_floordiv_exact:
  assumes "0 \<le> vx" and "vx < 2 ^ 53" and "0 < b" and "int b < 2 ^ 53"
  shows "int_floordiv (Finite vx) b = Inr \<lfloor>vx / of_nat b\<rfloor>"
proof -
  have "float_of_int (int b) = Inr (Finite (of_int (int b)))"
    using assms(4) by (intro float_of_int_small) simp
  then show ?thesis
    using assms(3) py_floordiv_exact [OF assms] by (simp add: int_floordiv_def)
qed

lemma len_dg_float:
  assumes "float_total g = Inr (Finite v)" and "0 \<le> v" and "v < 2 ^ 53"
    and "0 < batch_size g" and "int (batch_size g) < 2 ^ 53"
  shows "len_dg g = Inr (if of_int \<lfloor>v / of_nat (batch_size g)\<rfloor> * of_nat (batch_size g) < v
                         then \<lfloor>v / of_nat (batch_size g)\<rfloor> + 1
                         else \<lfloor>v / of_nat (batch_size g)\<rfloor>)"
  using assms(1) int_floordiv_exact [OF assms(2-5)]
  by (simp add: len_dg_def)

lemma floor_rat_numeral:
  "\<lfloor>(numeral a :: rat) / numeral b\<rfloor> = numeral a div numeral b"
  using floor_divide_of_int_eq [of "numeral a" "numeral b", where ?'a = rat] by simp

section \<open>Float arithmetic that is exact\<close>

lemma py_round_of_nat:
  assumes "int n < 2 ^ 53"
  shows "py_round (of_nat n) = Finite (of_nat n)"
  using py_round_of_int [of "int n"] assms by simp

lemma float_of_nat_small:
  assumes "int n < 2 ^ 53"
  shows "float_of_int (int n) = Inr (Finite (of_nat n))"
  using float_of_int_small [of "int n"] assms by simp

lemma py_round_one: "py_round 1 = Finite 1"
  using py_round_of_int [of 1] by simp

lemma per_class_quota_no_aug:
  assumes "0 < n" and "int n < 2 ^ 53" and "int b < 2 ^ 53"
  shows "per_class_quota b 0 n
      = Inr (if (b div n) * n < b then int (b div n) + 1 else int (b div n))"
proof -
  define c where "c = b div n"
  have cb: "c * n \<le> b" by (simp add: c_def)
  have "c \<le> c * n" using assms(1) by (cases n) simp_all
  then have cle: "c \<le> b" using cb by (rule le_trans)
  have one: "py_add (Finite 1) (Finite 0) = Finite 1"
    using py_round_of_int [of 1] by simp
  have fb: "float_of_int (int b) = Inr (Finite (of_nat b))"
    using assms(3) by (rule float_of_nat_small)
  have dv: "py_div (Finite (of_nat b)) (Finite 1) = Finite (of_nat b)"
    using py_round_of_nat [OF assms(3)] by simp
  have "int_floordiv (Finite (of_nat b)) n = Inr \<lfloor>(of_nat b :: rat) / of_nat n\<rfloor>"
  proof (rule int_floordiv_exact)
    have "(of_int (int b) :: rat) < of_int (2 ^ 53)" using assms(3) by (simp only: of_int_less_iff)
    then show "(of_nat b :: rat) < 2 ^ 53" by simp
  qed (use assms in simp_all)
  then have fd: "int_floordiv (Finite (of_nat b)) n = Inr (int c)"
    by (simp add: floor_divide_of_nat_eq c_def)
  have fc: "float_of_int (int c) = Inr (Finite (of_nat c))"
    using cle assms(3) by (intro float_of_nat_small) simp
  have fn: "float_of_int (int n) = Inr (Finite (of_nat n))"
    using assms(2) by (rule float_of_nat_small)
  have m1: "py_mul (Finite (of_nat c)) (Finite 1) = Finite (of_nat c)"
    using py_round_of_nat [of c] cle assms(3) by simp
  have "int (c * n) < 2 ^ 53" using cb assms(3) by linarith
  then have "py_round (of_nat (c * n)) = Finite (of_nat (c * n))" by (rule py_round_of_nat)
  then have m2: "py_mul (Finite (of_nat c)) (Finite (of_nat n)) = Finite (of_nat (c * n))"
    by simp
  have lt: "float_lt_int (Finite (of_nat (c * n))) (int b) = (c * n < b)"
  proof -
    have "((of_nat (c * n) :: rat) < of_nat b) = (c * n < b)" by (simp only: of_nat_less_iff)
    then show ?thesis by simp
  qed
  have pb: "py_round (of_nat b) = Finite (of_nat b)" using assms(3) by (rule py_round_of_nat)
  have pc: "py_round (of_nat c) = Finite (of_nat c)"
    using cle assms(3) by (intro py_round_of_nat) simp
  have pcn: "py_round (of_nat c * of_nat n) = Finite (of_nat c * of_nat n)"
    using m2 by simp
  have lt': "(of_nat c * of_nat n < (of_nat b :: rat)) = (c * n < b)"
    using lt by simp
  show ?thesis
    unfolding per_class_quota_def Let_def
    by (simp add: py_round_one pb fb fd fc fn pc pcn lt' c_def [symmetric])
qed

lemma cls_size_no_aug:
  assumes "aug_factor g = 0" and "0 < n_classes g" and "int (n_classes g) < 2 ^ 53"
    and "int (batch_size g) < 2 ^ 53"
  shows "cls_size g
      = Inr (if (batch_size g div n_classes g) * n_classes g < batch_size g
             then int (batch_size g div n_classes g) + 1
             else int (batch_size g div n_classes g))"
  using per_class_quota_no_aug [OF assms(2,3,4)] by (simp add: cls_size_def assms(1))

lemma float_total_no_aug:
  assumes "aug_factor g = 0" and "int (length (filenames g)) < 2 ^ 53"
  shows "float_total g = Inr (Finite (of_nat (length (filenames g))))"
proof -
  have one: "py_add (Finite 1) (Finite 0) = Finite 1"
    using py_round_of_int [of 1] by simp
  have fl: "float_of_int (int (length (filenames g))) = Inr (Finite (of_nat (length (filenames g))))"
    using assms(2) by (rule float_of_nat_small)
  have "py_mul (Finite (of_nat (length (filenames g)))) (Finite 1)
      = Finite (of_nat (length (filenames g)))"
    using py_round_of_nat [OF assms(2)] by simp
  then show ?thesis by (simp add: float_total_def assms(1) py_round_one fl)
qed

lemma len_dg_no_aug:
  assumes "aug_factor g = 0" and "int (length (filenames g)) < 2 ^ 53"
    and "0 < batch_size g" and "int (batch_size g) < 2 ^ 53"
  shows "len_dg g
      = Inr (if (length (filenames g) div batch_size g) * batch_size g < length (filenames g)
             then int (length (filenames g) div batch_size g) + 1
             else int (length (filenames g) div batch_size g))"
proof -
  define l where "l = length (filenames g)"
  define b where "b = batch_size g"
  have v: "(of_nat l :: rat) < 2 ^ 53"
  proof -
    have "(of_int (int l) :: rat) < of_int (2 ^ 53)"
      using assms(2) unfolding l_def by (simp only: of_int_less_iff)
    then show ?thesis by simp
  qed
  have fl: "\<lfloor>(of_nat l :: rat) / of_nat b\<rfloor> = int (l div b)" by (simp add: floor_divide_of_nat_eq)
  have cmp: "((of_int (int (l div b)) :: rat) * of_nat b < of_nat l) = (l div b * b < l)"
  proof -
    have "(of_int (int (l div b)) :: rat) * of_nat b = of_nat (l div b * b)" by simp
    then show ?thesis by (simp only: of_nat_less_iff)
  qed
  have "len_dg g = Inr (if of_int \<lfloor>(of_nat l :: rat) / of_nat b\<rfloor> * of_nat b < (of_nat l :: rat)
                         then \<lfloor>(of_nat l :: rat) / of_nat b\<rfloor> + 1
                         else \<lfloor>(of_nat l :: rat) / of_nat b\<rfloor>)"
    unfolding l_def b_def
    by (rule len_dg_float [OF float_total_no_aug [OF assms(1,2)]])
       (use v assms in \<open>simp_all add: l_def\<close>)
  then show ?thesis unfolding fl cmp by (simp add: l_def b_def)
qed

lemma py_round_numeral:
  assumes "(numeral k :: int) \<le> 2 ^ 53"
  shows "py_round (numeral k) = Finite (numeral k)"
  using py_round_of_int [of "numeral k"] assms by simp

lemma float_of_int_numeral:
  assumes "(numeral k :: int) \<le> 2 ^ 53"
  shows "float_of_int (numeral k) = Inr (Finite (numeral k))"
  using float_of_int_small [of "numeral k"] assms by simp

lemma float_of_int_one: "float_of_int 1 = Inr (Finite 1)"
  using float_of_int_small [of 1] by simp

lemma cls_size_aug_ex: "cls_size aug_ex = Inr 1"
proof -
  have fd: "int_floordiv (Finite 2) 2 = Inr 1"
    using int_floordiv_exact [of 2 2] by simp
  show ?thesis
    unfolding cls_size_def per_class_quota_def Let_def
    by (simp add: aug_ex_def balanced_ex_def py_round_numeral float_of_int_numeral
        float_of_int_one fd)
qed

section \<open>What the balanced selection returns\<close>

lemma balanced_picks_structure:
  assumes "balanced_picks rnd g k cs r = Inr (picked, r')"
  shows "\<exists>parts. picked = concat parts \<and> length parts = length cs
      \<and> (\<forall>j < length cs. length (parts ! j) = nat k
            \<and> mset (parts ! j) \<subseteq># mset (cls_pool g (cs ! j)))"
  using assms
proof (induction cs arbitrary: r picked)
  case Nil
  then show ?case by simp
next
  case (Cons c cs)
  from Cons.prems obtain p r1 others where
    ch: "np_random_choice rnd (cls_pool g c) k r = Inr (p, r1)"
    and rec: "balanced_picks rnd g k cs r1 = Inr (others, r')"
    and pk: "picked = p @ others"
    by (auto split: if_splits sum.splits prod.splits)
  from Cons.IH [OF rec] obtain parts where
    ps: "others = concat parts" "length parts = length cs"
    "\<forall>j < length cs. length (parts ! j) = nat k
        \<and> mset (parts ! j) \<subseteq># mset (cls_pool g (cs ! j))"
    by blast
  from np_random_choice_picks [OF ch] have
    p: "length p = nat k" "mset p \<subseteq># mset (cls_pool g c)" by simp_all
  have "\<forall>j < length (c # cs). length ((p # parts) ! j) = nat k
        \<and> mset ((p # parts) ! j) \<subseteq># mset (cls_pool g ((c # cs) ! j))"
  proof (intro allI impI)
    fix j
    assume "j < length (c # cs)"
    then show "length ((p # parts) ! j) = nat k
        \<and> mset ((p # parts) ! j) \<subseteq># mset (cls_pool g ((c # cs) ! j))"
      using p ps(3) by (cases j) simp_all
  qed
  moreover have "picked = concat (p # parts)" using pk ps(1) by simp
  moreover have "length (p # parts) = length (c # cs)" using ps(2) by simp
  ultimately show ?case by blast
qed

lemma balanced_indices_structure:
  assumes "balanced_indices e g r = Inr (idxs, r')"
  shows "\<exists>k parts shuffled. cls_size g = Inr k
      \<and> length parts = length (classes g)
      \<and> (\<forall>c < length (classes g). length (parts ! c) = nat k
            \<and> mset (parts ! c) \<subseteq># mset (cls_pool g c))
      \<and> mset shuffled = mset (concat parts)
      \<and> idxs = take (batch_size g) shuffled"
proof -
  from assms obtain k where k: "cls_size g = Inr k"
    unfolding balanced_indices_def by (auto split: if_splits sum.splits)
  from assms k obtain picked r1 where
    pk: "balanced_picks (rand e) g k [0..<length (classes g)] r = Inr (picked, r1)"
    unfolding balanced_indices_def by (auto split: if_splits sum.splits prod.splits)
  from assms k pk obtain shuffled where
    sh: "random_shuffle (rand e) picked r1 = (shuffled, r')"
    and ix: "idxs = take (batch_size g) shuffled"
    unfolding balanced_indices_def by (auto split: if_splits sum.splits prod.splits)
  from balanced_picks_structure [OF pk] obtain parts where
    ps: "picked = concat parts" "length parts = length [0..<length (classes g)]"
    "\<forall>j < length [0..<length (classes g)]. length (parts ! j) = nat k
        \<and> mset (parts ! j) \<subseteq># mset (cls_pool g ([0..<length (classes g)] ! j))"
    by blast
  have a: "\<forall>c < length (classes g). length (parts ! c) = nat k
            \<and> mset (parts ! c) \<subseteq># mset (cls_pool g c)"
    using ps(3) by simp
  have b: "mset shuffled = mset (concat parts)"
    using random_shuffle_perm [OF sh] ps(1) by simp
  have c: "length parts = length (classes g)" using ps(2) by simp
  from k a b c ix show ?thesis by blast
qed

lemma cls_pool_set: "set (cls_pool g c) = {i. i < length (filenames g) \<and> labels g ! i = c}"
  by (auto simp: cls_pool_def)

lemma balanced_indices_labels:
  assumes "balanced_indices e g r = Inr (idxs, r')" and "i \<in> set idxs"
  shows "i < length (filenames g) \<and> labels g ! i < length (classes g)"
proof -
  from balanced_indices_structure [OF assms(1)] obtain k parts shuffled where
    s: "length parts = length (classes g)"
    "\<forall>c < length (classes g). length (parts ! c) = nat k
        \<and> mset (parts ! c) \<subseteq># mset (cls_pool g c)"
    "mset shuffled = mset (concat parts)" "idxs = take (batch_size g) shuffled"
    by blast
  from assms(2) s(4) have "i \<in> set shuffled" by (auto dest: in_set_takeD)
  then have "i \<in># mset shuffled" by simp
  then have "i \<in> set (concat parts)" using s(3) by (metis set_mset_mset)
  then obtain p where p: "p \<in> set parts" "i \<in> set p" by auto
  then obtain c where c: "c < length parts" "p = parts ! c" by (auto simp: in_set_conv_nth)
  with s(1,2) have "mset p \<subseteq># mset (cls_pool g c)" by simp
  with p(2) have "i \<in> set (cls_pool g c)" by (metis mset_subset_eqD set_mset_mset)
  then show ?thesis using c(1) s(1) by (simp add: cls_pool_set)
qed

section \<open>Plain batches\<close>

lemma plain_indices_slice:
  assumes "length (indices g) = length (filenames g)"
  shows "plain_indices g i = take (batch_size g) (drop (i * batch_size g) (indices g))"
proof (cases "int ((i + 1) * batch_size g) \<le> int (length (filenames g)) - 1")
  case True
  then show ?thesis by (simp add: plain_indices_def Let_def)
next
  case False
  then have "length (filenames g) \<le> (i + 1) * batch_size g" by linarith
  then have "length (drop (i * batch_size g) (indices g)) \<le> batch_size g"
    using assms by simp
  then have "take (batch_size g) (drop (i * batch_size g) (indices g))
      = drop (i * batch_size g) (indices g)" by simp
  moreover have "plain_indices g i
      = take (length (filenames g) - i * batch_size g) (drop (i * batch_size g) (indices g))"
    using False by (simp add: plain_indices_def Let_def)
  moreover have "take (length (filenames g) - i * batch_size g) (drop (i * batch_size g) (indices g))
      = drop (i * batch_size g) (indices g)"
    using assms by simp
  ultimately show ?thesis by simp
qed

lemma concat_slices:
  "concat (map (\<lambda>i. map F (take b (drop (i * b) xs))) [0..<n]) = map F (take (n * b) xs)"
proof (induction n)
  case 0
  then show ?case by simp
next
  case (Suc n)
  have "Suc n * b = n * b + b" by simp
  then have "take (Suc n * b) xs = take (n * b) xs @ take b (drop (n * b) xs)"
    by (simp only: take_add)
  with Suc show ?case by simp
qed

lemma last_batch_size:
  assumes "0 < (b :: nat)" "q * b < len" "len \<le> (q + 1) * b"
  shows "min b (len - q * b) = (if len mod b = 0 then b else len mod b)"
proof -
  define m where "m = len - q * b"
  have e: "(q + 1) * b = q * b + b" by (simp add: algebra_simps)
  have m: "0 < m" "m \<le> b" "len = q * b + m"
    using assms(2,3) unfolding m_def e by linarith+
  show ?thesis
  proof (cases "m = b")
    case True
    then have "len mod b = 0" using m(3) by simp
    then show ?thesis using True by (simp add: m_def)
  next
    case False
    then have "m < b" using m(2) by simp
    then have "len mod b = m" using m(3) by simp
    then show ?thesis using m(1) \<open>m < b\<close> by (simp add: m_def)
  qed
qed

lemma batch_count_bounds:
  assumes "0 < (b :: nat)"
    and n_def: "n = (if (len div b) * b < len then len div b + 1 else len div b)"
  shows "len \<le> n * b" and "0 < n \<Longrightarrow> (n - 1) * b < len"
proof -
  have d: "len = (len div b) * b + len mod b" by simp
  have mm: "len mod b < b" using assms(1) by simp
  show "len \<le> n * b"
  proof (cases "(len div b) * b < len")
    case True
    then have "n * b = (len div b) * b + b" by (simp add: n_def algebra_simps)
    then show ?thesis using d mm by linarith
  next
    case False
    then show ?thesis by (simp add: n_def)
  qed
  show "(n - 1) * b < len" if "0 < n"
  proof (cases "(len div b) * b < len")
    case True
    then show ?thesis by (simp add: n_def)
  next
    case False
    then have n: "n = len div b" by (simp add: n_def)
    from False have eq: "(len div b) * b = len" using d by linarith
    have "(n - 1) * b + b = n * b" using that by (simp add: algebra_simps)
    then have "(n - 1) * b < n * b" using assms(1) by linarith
    then show ?thesis using n eq by simp
  qed
qed

lemma load_rows_succeeds:
  assumes "\<forall>idx \<in> set idxs. idx < length (filenames g) \<and> idx < length (labels g)
      \<and> np_load e (filenames g ! idx) = Some (D ! idx) \<and> shape_ok g (D ! idx)"
    and "length idxs \<le> cap - i"
  shows "load_rows e g cap i idxs = Inr (map (\<lambda>idx. D ! idx) idxs, map (\<lambda>idx. labels g ! idx) idxs)"
  using assms
proof (induction idxs arbitrary: i)
  case Nil
  then show ?case by simp
next
  case (Cons idx idxs)
  from Cons.prems(2) have i: "i < cap" and l: "length idxs \<le> cap - Suc i" by simp_all
  have "load_rows e g cap (Suc i) idxs
      = Inr (map (\<lambda>idx. D ! idx) idxs, map (\<lambda>idx. labels g ! idx) idxs)"
    using Cons.prems(1) l by (intro Cons.IH) simp_all
  then show ?case using Cons.prems(1) i by simp
qed

lemma normalize_batch_map:
  assumes "normalize_batch g D = Inr Dn"
  shows "\<exists>f. Dn = map f D \<and> (\<forall>X. normalize_batch g X = Inr (map f X))
      \<and> (mean g = None \<or> std g = None \<longrightarrow> Dn = D)"
proof (cases "mean g = None \<or> std g = None")
  case True
  then have "\<forall>X. normalize_batch g X = Inr (map id X)"
    by (auto simp: normalize_batch_def split: option.splits)
  moreover from this assms have "Dn = map id D" by simp
  ultimately show ?thesis using True by (intro exI [of _ id]) simp
next
  case False
  then obtain m s where ms: "mean g = Some m" "std g = Some s" by auto
  with assms have ok: "shape_ok g m \<and> shape_ok g s"
    by (auto simp: normalize_batch_def split: if_splits)
  then have "\<forall>X. normalize_batch g X = Inr (map (normalize_sample m s) X)"
    using ms by (simp add: normalize_batch_def)
  moreover from this assms have "Dn = map (normalize_sample m s) D" by simp
  ultimately show ?thesis using ms by (intro exI [of _ "normalize_sample m s"]) simp
qed

lemma to_categorical_ok:
  assumes "\<forall>l \<in> set y. l < n"
  shows "to_categorical y n = Inr (map (one_hot n) y)"
  using assms by (auto simp: to_categorical_def list_ex_iff)

section \<open>Epoch length\<close>

lemma float_total_tenth_ex: "float_total tenth_ex = Inr (Finite 11)"
proof -
  have a: "double_round (39631676720860365 / 36028797018963968)
      = 2476979795053773 / 2251799813685248"
    by (subst double_round_eq [where e = 0])
       (simp_all add: round_half_even_def Let_def floor_rat_numeral)
  have b: "double_round (12384898975268865 / 1125899906842624) = 11"
    by (subst double_round_eq [where e = 3])
       (simp_all add: round_half_even_def Let_def floor_rat_numeral)
  have "float_of_int 10 = Inr (Finite (of_int 10))" by (rule float_of_int_small) simp
  then show ?thesis
    by (simp add: float_total_def tenth_ex_def len_example_def py_round_def Let_def a b)
qed

lemma float_total_hundred_ex:
  "float_total hundred_ex = Inr (Finite (7740561859543041 / 70368744177664))"
proof -
  have a: "double_round (39631676720860365 / 36028797018963968)
      = 2476979795053773 / 2251799813685248"
    by (subst double_round_eq [where e = 0])
       (simp_all add: round_half_even_def Let_def floor_rat_numeral)
  have b: "double_round (61924494876344325 / 562949953421312)
      = 7740561859543041 / 70368744177664"
    by (subst double_round_eq [where e = 6])
       (simp_all add: round_half_even_def Let_def floor_rat_numeral)
  have "float_of_int 100 = Inr (Finite (of_int 100))" by (rule float_of_int_small) simp
  then show ?thesis
    by (simp add: float_total_def hundred_ex_def tenth_ex_def len_example_def py_round_def
        Let_def a b)
qed

lemma float_total_len_example: "float_total len_example = Inr (Finite (21 / 2))"
proof -
  have a: "double_round (3 / 2) = 3 / 2"
    by (subst double_round_eq [where e = 0])
       (simp_all add: round_half_even_def Let_def floor_rat_numeral)
  have b: "double_round (21 / 2) = 21 / 2"
    by (subst double_round_eq [where e = 3])
       (simp_all add: round_half_even_def Let_def floor_rat_numeral)
  have "float_of_int 7 = Inr (Finite (of_int 7))" by (rule float_of_int_small) simp
  then show ?thesis
    by (simp add: float_total_def len_example_def py_round_def Let_def a b)
qed

text \<open>
  C3, as stated, fails. With ten files, batches of eleven and \<open>aug_factor = 0.1\<close> the double
  product \<open>10 * (1.0 + 0.1)\<close> is \<open>11.0\<close>, so \<open>__len__\<close> returns \<open>1\<close>, although \<open>1 * 11\<close> is
  below the exact \<open>10 * (1 + aug_factor)\<close>. With a hundred files and batches of ten the
  double product is above \<open>110\<close>, so \<open>__len__\<close> returns \<open>12\<close>, although \<open>11 * 10\<close> reaches
  \<open>100 * (1 + 1/10)\<close>.
\<close>

theorem len_dg_least_counterexample:
  "len_dg tenth_ex = Inr 1
   \<and> \<not> of_nat (length (filenames tenth_ex)) * (1 + aug_factor tenth_ex)
        \<le> of_int 1 * of_nat (batch_size tenth_ex)
   \<and> len_dg hundred_ex = Inr 12
   \<and> of_nat (length (filenames hundred_ex)) * (1 + 1 / 10)
        \<le> (of_int 11 * of_nat (batch_size hundred_ex) :: rat)"
proof (intro conjI)
  have "len_dg tenth_ex
      = Inr (if of_int \<lfloor>(11 :: rat) / of_nat (batch_size tenth_ex)\<rfloor>
                  * of_nat (batch_size tenth_ex) < (11 :: rat)
             then \<lfloor>(11 :: rat) / of_nat (batch_size tenth_ex)\<rfloor> + 1
             else \<lfloor>(11 :: rat) / of_nat (batch_size tenth_ex)\<rfloor>)"
    by (rule len_dg_float [OF float_total_tenth_ex])
       (simp_all add: tenth_ex_def len_example_def)
  then show "len_dg tenth_ex = Inr 1" by (simp add: tenth_ex_def len_example_def)
  show "\<not> of_nat (length (filenames tenth_ex)) * (1 + aug_factor tenth_ex)
        \<le> of_int 1 * of_nat (batch_size tenth_ex)"
    by (simp add: tenth_ex_def len_example_def)
  have "len_dg hundred_ex
      = Inr (if of_int \<lfloor>(7740561859543041 / 70368744177664 :: rat)
                    / of_nat (batch_size hundred_ex)\<rfloor>
                  * of_nat (batch_size hundred_ex) < (7740561859543041 / 70368744177664 :: rat)
             then \<lfloor>(7740561859543041 / 70368744177664 :: rat)
                    / of_nat (batch_size hundred_ex)\<rfloor> + 1
             else \<lfloor>(7740561859543041 / 70368744177664 :: rat)
                    / of_nat (batch_size hundred_ex)\<rfloor>)"
    by (rule len_dg_float [OF float_total_hundred_ex])
       (simp_all add: hundred_ex_def tenth_ex_def len_example_def)
  then show "len_dg hundred_ex = Inr 12"
    by (simp add: hundred_ex_def tenth_ex_def len_example_def floor_rat_numeral)
  show "of_nat (length (filenames hundred_ex)) * (1 + 1 / 10)
        \<le> (of_int 11 * of_nat (batch_size hundred_ex) :: rat)"
    by (simp add: hundred_ex_def tenth_ex_def len_example_def)
qed

text \<open>
  C3, amended. Let \<open>v\<close> be the double product \<^verbatim>\<open>len(self.filenames)*(1.0+self.aug_factor)\<close>, each
  operation rounded to the nearest double. For \<open>0 < batch_size < 2\<^sup>5\<^sup>3\<close> and \<open>0 \<le> v < 2\<^sup>5\<^sup>3\<close>,
  \<open>__len__\<close> returns the least integer \<open>n\<close> with \<open>n * batch_size \<ge> v\<close>: it rounds up on any
  remainder of \<open>v\<close>, and it is a function of the configuration alone.
\<close>

theorem len_dg_least_rounded:
  assumes "float_total g = Inr (Finite v)" and "0 \<le> v" and "v < 2 ^ 53"
    and "0 < batch_size g" and "int (batch_size g) < 2 ^ 53"
  shows "\<exists>n. len_dg g = Inr n
    \<and> v \<le> of_int n * of_nat (batch_size g)
    \<and> (\<forall>m. v \<le> of_int m * of_nat (batch_size g) \<longrightarrow> n \<le> m)"
proof -
  define b :: rat where "b = of_nat (batch_size g)"
  define q where "q = \<lfloor>v / b\<rfloor>"
  have bpos: "0 < b" using assms(4) by (simp add: b_def)
  have len: "len_dg g = Inr (if of_int q * b < v then q + 1 else q)"
    using len_dg_float [OF assms] by (simp add: q_def b_def)
  have "of_int q \<le> v / b" unfolding q_def by simp
  then have lo: "of_int q * b \<le> v" using bpos by (simp add: pos_le_divide_eq)
  have "v / b < of_int q + 1" unfolding q_def by linarith
  then have hi: "v < (of_int q + 1) * b" using bpos by (simp add: pos_divide_less_eq)
  have least: "q < m" if "v \<le> of_int m * b" "of_int q * b < v" for m
  proof -
    have "of_int q * b < of_int m * b" using that by simp
    then have "(of_int q :: rat) < of_int m" using bpos by simp
    then show ?thesis by simp
  qed
  have least2: "q \<le> m" if "v \<le> of_int m * b" for m
  proof -
    have "v / b \<le> of_int m" using that bpos by (simp add: pos_divide_le_eq)
    then show ?thesis unfolding q_def by (simp add: floor_le_iff)
  qed
  show ?thesis
  proof (cases "of_int q * b < v")
    case True
    then have "len_dg g = Inr (q + 1)" using len by simp
    moreover have "v \<le> of_int (q + 1) * b" using hi by simp
    moreover have "\<forall>m. v \<le> of_int m * b \<longrightarrow> q + 1 \<le> m" using least True by fastforce
    ultimately show ?thesis unfolding b_def by blast
  next
    case False
    then have "len_dg g = Inr q" using len by simp
    moreover have "v \<le> of_int q * b" using False by simp
    moreover have "\<forall>m. v \<le> of_int m * b \<longrightarrow> q \<le> m" using least2 by blast
    ultimately show ?thesis unfolding b_def by blast
  qed
qed

theorem len_dg_least_rounded_witness:
  "\<exists>n. len_dg len_example = Inr n
    \<and> 21 / 2 \<le> of_int n * (of_nat (batch_size len_example) :: rat)
    \<and> n = 4"
proof -
  have h: "(0 :: rat) \<le> 21 / 2" "(21 / 2 :: rat) < 2 ^ 53" "0 < batch_size len_example"
    "int (batch_size len_example) < 2 ^ 53"
    by (simp_all add: len_example_def)
  from len_dg_least_rounded [OF float_total_len_example h] obtain n where
    n: "len_dg len_example = Inr n"
    and up: "21 / 2 \<le> of_int n * (of_nat (batch_size len_example) :: rat)"
    and least: "\<forall>m. 21 / 2 \<le> of_int m * (of_nat (batch_size len_example) :: rat) \<longrightarrow> n \<le> m"
    by (elim exE conjE)
  have "(21 / 2 :: rat) \<le> of_int 4 * of_nat (batch_size len_example)"
    by (simp add: len_example_def)
  with least have "n \<le> 4" by blast
  moreover have "4 \<le> n"
  proof -
    have "(21 / 2 :: rat) \<le> of_int n * 3" using up by (simp add: len_example_def)
    then have "(7 / 2 :: rat) \<le> of_int n" by simp
    then have "(of_int 3 :: rat) < of_int n" by simp
    then have "3 < n" by (simp only: of_int_less_iff)
    then show ?thesis by simp
  qed
  ultimately have "n = 4" by simp
  with n up show ?thesis by blast
qed

section \<open>The statistics of \<open>fit\<close>\<close>

text \<open>
  C1. On a training set of four identical samples \<open>[[1]]\<close>, \<open>fit\<close> returns the mean
  \<open>(a + 4) / 4\<close> and the std \<open>(b + 4 * (1 - (a + 4))\<^sup>2) / 4\<close>, where \<open>a\<close> and \<open>b\<close> are the
  initial contents of the two accumulators: the second pass subtracts the accumulated
  sum of the first pass, not the mean. With zeroed accumulators the mean is the sample
  and the std is \<open>9\<close>, not \<open>0\<close>.
\<close>

theorem fit_identical_samples:
  "fit env_ex fit_ex (\<lambda>p c. a) (\<lambda>p c. b)
     = Inr (([[(a + 4) / 4]], [[(b + 4 * (1 - (a + 4)) ^ 2) / 4]]),
            fit_ex\<lparr>mean := Some [[(a + 4) / 4]],
                   std := Some [[(b + 4 * (1 - (a + 4)) ^ 2) / 4]]\<rparr>)
   \<and> fit env_ex fit_ex (\<lambda>p c. 0) (\<lambda>p c. 0)
     = Inr (([[1]], [[9]]), fit_ex\<lparr>mean := Some [[1]], std := Some [[9]]\<rparr>)"
  by (simp add: fit_def fit_ex_def env_ex_def np_empty_def shape_ok_def Let_def algebra_simps)

section \<open>Augmented batches are full\<close>

text \<open>
  C2. Let \<open>__getitem__\<close> return \<open>(X, y)\<close> in augmented mode, for the selected indices \<open>idxs\<close>,
  \<open>N\<close> of them. Then \<open>X\<close> and \<open>y\<close> have exactly \<open>batch_size\<close> entries and \<open>N \<le> batch_size\<close>.
  Before normalisation the batch is the \<open>N\<close> loaded samples followed by a tail of
  \<open>batch_size - N\<close> samples. The tail comes from \<open>batch_size - N\<close> source indices drawn from
  \<open>idxs\<close> without replacement by \<^verbatim>\<open>np.random.choice\<close>. A first transform \<open>f1\<close> is drawn from
  \<open>aug_func\<close>, then a coin from \<open>[0, 1]\<close>. When the coin shows \<open>1\<close> a second transform \<open>f2\<close> is
  drawn from \<open>aug_func\<close> and the tail is \<open>f2\<close> of \<open>f1\<close> of the source samples; otherwise no
  further draw is made and the tail is \<open>f1\<close> of the source samples. The labels are those
  of \<open>idxs\<close> followed by those of the source indices, one-hot encoded. When
  \<open>N \<ge> batch_size\<close> the batch is the loaded samples alone.
\<close>

theorem augmented_batch_full:
  assumes "augment g" and "getitem e g index r = Inr ((X, y), r')"
  shows "length X = batch_size g \<and> length y = batch_size g
    \<and> (\<exists>idxs r1 Xraw yraw L aug_indices ra A f1 rb toss rc tail.
          select_indices e g index r = Inr (idxs, r1)
          \<and> assemble e g idxs r1 = Inr ((Xraw, yraw), r')
          \<and> length idxs \<le> batch_size g
          \<and> np_random_choice (rand e) idxs (int (batch_size g) - int (length idxs)) r1
              = Inr (aug_indices, ra)
          \<and> length aug_indices = batch_size g - length idxs
          \<and> mset aug_indices \<subseteq># mset idxs
          \<and> map (\<lambda>idx. np_load e (filenames g ! idx)) idxs = map Some L
          \<and> map (\<lambda>idx. np_load e (filenames g ! idx)) aug_indices = map Some A
          \<and> random_choice (rand e) (aug_func e) ra = Inr (f1, rb)
          \<and> f1 \<in> set (aug_func e)
          \<and> random_choice (rand e) [0, 1 :: nat] rb = Inr (toss, rc)
          \<and> (if toss = 1
              then \<exists>f2. random_choice (rand e) (aug_func e) rc = Inr (f2, r')
                     \<and> f2 \<in> set (aug_func e) \<and> tail = f2 (f1 A)
              else tail = f1 A \<and> r' = rc)
          \<and> Xraw = L @ tail
          \<and> yraw = map (\<lambda>idx. labels g ! idx) (idxs @ aug_indices)
          \<and> y = map (one_hot (n_classes g)) yraw
          \<and> (batch_size g \<le> length idxs \<longrightarrow> Xraw = L))"
proof -
  from assms(2) obtain idxs r1 where
    sel: "select_indices e g index r = Inr (idxs, r1)"
    and gen: "data_generation e g idxs r1 = Inr ((X, y), r')"
    unfolding getitem_def by (auto split: sum.splits prod.splits)
  from gen obtain Xraw yraw where
    asm: "assemble e g idxs r1 = Inr ((Xraw, yraw), r')"
    and nrm: "normalize_batch g Xraw = Inr X"
    and cat: "to_categorical yraw (n_classes g) = Inr y"
    unfolding data_generation_def by (auto split: sum.splits prod.splits)
  from asm assms(1) obtain L yl tail aug_y where
    ld: "load_rows e g (batch_size g) 0 idxs = Inr (L, yl)"
    and tl: "augment_tail e g idxs r1 = Inr ((tail, aug_y), r')"
    and raw: "Xraw = L @ tail" "yraw = yl @ aug_y"
    unfolding assemble_def by (auto split: sum.splits prod.splits)
  from load_rows_result [OF ld] have
    L: "map (\<lambda>idx. np_load e (filenames g ! idx)) idxs = map Some L"
    and yl: "yl = map (\<lambda>idx. labels g ! idx) idxs" by simp_all
  from L have lenL: "length L = length idxs" by (metis length_map)
  from augment_tail_result [OF tl] obtain aug_indices ra A f1 rb toss rc where
    t: "length idxs \<le> batch_size g
      \<and> np_random_choice (rand e) idxs (int (batch_size g) - int (length idxs)) r1
          = Inr (aug_indices, ra)
      \<and> length aug_indices = batch_size g - length idxs
      \<and> mset aug_indices \<subseteq># mset idxs
      \<and> map (\<lambda>idx. np_load e (filenames g ! idx)) aug_indices = map Some A
      \<and> aug_y = map (\<lambda>idx. labels g ! idx) aug_indices
      \<and> random_choice (rand e) (aug_func e) ra = Inr (f1, rb)
      \<and> f1 \<in> set (aug_func e)
      \<and> random_choice (rand e) [0, 1 :: nat] rb = Inr (toss, rc)
      \<and> (if toss = 1
          then \<exists>f2. random_choice (rand e) (aug_func e) rc = Inr (f2, r')
                 \<and> f2 \<in> set (aug_func e) \<and> tail = f2 (f1 A)
          else tail = f1 A \<and> r' = rc)
      \<and> length tail = batch_size g - length idxs"
    by (elim exE)
  have lenX: "length X = length Xraw"
    using nrm by (auto simp: normalize_batch_def split: option.splits if_splits)
  have y: "y = map (one_hot (n_classes g)) yraw"
    using cat by (auto simp: to_categorical_def split: if_splits)
  have lenraw: "length Xraw = batch_size g" using raw lenL t by simp
  have lenyraw: "length yraw = batch_size g" using raw yl t by simp
  have full: "Xraw = L" if "batch_size g \<le> length idxs"
    using that t raw by simp
  have ex: "\<exists>idxs r1 Xraw yraw L aug_indices ra A f1 rb toss rc tail.
          select_indices e g index r = Inr (idxs, r1)
          \<and> assemble e g idxs r1 = Inr ((Xraw, yraw), r')
          \<and> length idxs \<le> batch_size g
          \<and> np_random_choice (rand e) idxs (int (batch_size g) - int (length idxs)) r1
              = Inr (aug_indices, ra)
          \<and> length aug_indices = batch_size g - length idxs
          \<and> mset aug_indices \<subseteq># mset idxs
          \<and> map (\<lambda>idx. np_load e (filenames g ! idx)) idxs = map Some L
          \<and> map (\<lambda>idx. np_load e (filenames g ! idx)) aug_indices = map Some A
          \<and> random_choice (rand e) (aug_func e) ra = Inr (f1, rb)
          \<and> f1 \<in> set (aug_func e)
          \<and> random_choice (rand e) [0, 1 :: nat] rb = Inr (toss, rc)
          \<and> (if toss = 1
              then \<exists>f2. random_choice (rand e) (aug_func e) rc = Inr (f2, r')
                     \<and> f2 \<in> set (aug_func e) \<and> tail = f2 (f1 A)
              else tail = f1 A \<and> r' = rc)
          \<and> Xraw = L @ tail
          \<and> yraw = map (\<lambda>idx. labels g ! idx) (idxs @ aug_indices)
          \<and> y = map (one_hot (n_classes g)) yraw
          \<and> (batch_size g \<le> length idxs \<longrightarrow> Xraw = L)"
    by (rule exI [of _ idxs], rule exI [of _ r1], rule exI [of _ Xraw], rule exI [of _ yraw],
        rule exI [of _ L], rule exI [of _ aug_indices], rule exI [of _ ra], rule exI [of _ A],
        rule exI [of _ f1], rule exI [of _ rb], rule exI [of _ toss], rule exI [of _ rc],
        rule exI [of _ tail])
       (use sel asm t L raw yl y full in simp)
  from lenX lenraw y lenyraw ex show ?thesis by simp
qed

lemma getitem_aug_ex_two_transforms:
  "select_indices env_ex aug_ex 0 0 = Inr ([0, 3], 4)
   \<and> getitem env_ex aug_ex 0 0
     = Inr (([[[1]], [[4]], [[102]], [[105]]], [[1, 0], [0, 1], [1, 0], [0, 1]]), 9)"
proof -
  have p: "balanced_picks (rand env_ex) aug_ex 1 [0..<length (classes aug_ex)] 0
      = Inr ([0, 3], 2)"
    unfolding env_ex_def aug_ex_def balanced_ex_def by code_simp
  have s: "random_shuffle (rand env_ex) [0, 3 :: nat] 2 = ([0, 3], 4)"
    unfolding env_ex_def by code_simp
  have d: "data_generation env_ex aug_ex [0, 3] 4
      = Inr (([[[1]], [[4]], [[102]], [[105]]], [[1, 0], [0, 1], [1, 0], [0, 1]]), 9)"
    unfolding env_ex_def aug_ex_def balanced_ex_def by code_simp
  have f: "balance aug_ex" "augment aug_ex" "aug_factor aug_ex = 1" "batch_size aug_ex = 4"
    by (simp_all add: aug_ex_def balanced_ex_def)
  have sel: "select_indices env_ex aug_ex 0 0 = Inr ([0, 3], 4)"
    unfolding select_indices_def balanced_indices_def cls_size_aug_ex
    by (simp add: p s f)
  with d show ?thesis by (simp add: getitem_def)
qed

lemma getitem_aug_ex_one_transform:
  "select_indices env_ex aug_ex 0 3 = Inr ([2, 1], 7)
   \<and> getitem env_ex aug_ex 0 3
     = Inr (([[[3]], [[2]], [[12]], [[13]]], [[0, 1], [1, 0], [1, 0], [0, 1]]), 11)"
proof -
  have p: "balanced_picks (rand env_ex) aug_ex 1 [0..<length (classes aug_ex)] 3
      = Inr ([1, 2], 5)"
    unfolding env_ex_def aug_ex_def balanced_ex_def by code_simp
  have s: "random_shuffle (rand env_ex) [Suc 0, 2] 5 = ([2, Suc 0], 7)"
    unfolding env_ex_def by code_simp
  have d: "data_generation env_ex aug_ex [2, 1] 7
      = Inr (([[[3]], [[2]], [[12]], [[13]]], [[0, 1], [1, 0], [1, 0], [0, 1]]), 11)"
    unfolding env_ex_def aug_ex_def balanced_ex_def by code_simp
  have f: "balance aug_ex" "augment aug_ex" "aug_factor aug_ex = 1" "batch_size aug_ex = 4"
    by (simp_all add: aug_ex_def balanced_ex_def)
  have sel: "select_indices env_ex aug_ex 0 3 = Inr ([2, 1], 7)"
    unfolding select_indices_def balanced_indices_def cls_size_aug_ex
    by (simp add: p s f)
  with d show ?thesis by (simp add: getitem_def)
qed

theorem augmented_batch_full_witness:
  "getitem env_ex aug_ex 0 0
     = Inr (([[[1]], [[4]], [[102]], [[105]]], [[1, 0], [0, 1], [1, 0], [0, 1]]), 9)
   \<and> length [[[1 :: rat]], [[4]], [[102]], [[105]]] = batch_size aug_ex
   \<and> random_choice (rand env_ex) [0, 1 :: nat] 7 = Inr (1, 8)
   \<and> getitem env_ex aug_ex 0 3
     = Inr (([[[3]], [[2]], [[12]], [[13]]], [[0, 1], [1, 0], [1, 0], [0, 1]]), 11)
   \<and> length [[[3 :: rat]], [[2]], [[12]], [[13]]] = batch_size aug_ex
   \<and> random_choice (rand env_ex) [0, 1 :: nat] 10 = Inr (0, 11)"
proof -
  have a: "augment aug_ex" by (simp add: aug_ex_def balanced_ex_def)
  note ev0 = getitem_aug_ex_two_transforms [THEN conjunct2]
  note ev1 = getitem_aug_ex_one_transform [THEN conjunct2]
  have c0: "random_choice (rand env_ex) [0, 1 :: nat] 7 = Inr (1, 8)"
    unfolding env_ex_def by code_simp
  have c1: "random_choice (rand env_ex) [0, 1 :: nat] 10 = Inr (0, 11)"
    unfolding env_ex_def by code_simp
  from augmented_batch_full [OF a ev0] augmented_batch_full [OF a ev1] ev0 ev1 c0 c1
  show ?thesis by simp
qed

section \<open>The per-class quota and the balanced picks\<close>

lemma double_round_fraction:
  assumes "2 powi e \<le> \<bar>x\<bar>" and "\<bar>x\<bar> < 2 powi (e + 1)" and "- 1022 \<le> e"
    and "of_int (round_half_even (x / 2 powi (e - 52))) * 2 powi (e - 52) = y"
  shows "double_round x = y"
  using double_round_eq [OF assms(1-3)] assms(4) by simp

lemma cls_size_quota_ex: "cls_size quota_ex = Inr 4"
proof -
  define af :: rat where "af = 3152519739159347 / 2251799813685248"
  define x :: rat where "x = 8444249301319681 / 562949953421312"
  define y :: rat where "y = 1182194902184755 / 281474976710656"
  define z :: rat where "z = 5910974510923775 / 281474976710656"
  have r1: "double_round (12610078956637389 / 9007199254740992) = af"
    unfolding af_def
    by (rule double_round_fraction [where e = 0])
       (simp_all add: round_half_even_def Let_def floor_rat_numeral)
  have r2: "double_round (47287796087390208 / 3152519739159347) = x"
    unfolding x_def
    by (rule double_round_fraction [where e = 3])
       (simp_all add: round_half_even_def Let_def floor_rat_numeral)
  have r3: "double_round (9457559217478041 / 2251799813685248) = y"
    unfolding y_def
    by (rule double_round_fraction [where e = 2])
       (simp_all add: round_half_even_def Let_def floor_rat_numeral)
  have r4: "double_round (5910974510923775 / 281474976710656) = z"
    unfolding z_def
    by (rule double_round_fraction [where e = 4])
       (simp_all add: round_half_even_def Let_def floor_rat_numeral)
  have pa: "py_round (1 + aug_factor quota_ex) = Finite af"
    by (simp add: quota_ex_def len_example_def py_round_def Let_def r1) (simp add: af_def)
  have pd: "py_round (21 / af) = Finite x"
    by (simp add: py_round_def Let_def af_def r2) (simp add: x_def)
  have pm1: "py_round (3 * af) = Finite y"
    by (simp add: py_round_def Let_def af_def r3) (simp add: y_def)
  have pm2: "py_round (y * 5) = Finite z"
    by (simp add: py_round_def Let_def y_def r4) (simp add: z_def)
  have fd: "int_floordiv (Finite x) 5 = Inr 3"
    using int_floordiv_exact [of x 5] by (simp add: x_def floor_rat_numeral)
  have nz: "af \<noteq> 0" by (simp add: af_def)
  have lt: "z < 21" by (simp add: z_def)
  have f: "batch_size quota_ex = 21" "n_classes quota_ex = 5"
    by (simp_all add: quota_ex_def len_example_def)
  have "per_class_quota 21 (aug_factor quota_ex) 5 = Inr 4"
    unfolding per_class_quota_def Let_def
    by (simp add: pa pd fd pm1 pm2 nz lt float_of_int_numeral)
  then show ?thesis by (simp add: cls_size_def f)
qed

lemma ceiling_quota_ex:
  "\<lceil>of_nat (batch_size quota_ex) / ((1 + aug_factor quota_ex) * of_nat (n_classes quota_ex))\<rceil> = 3"
  by (rule ceiling_unique) (simp_all add: quota_ex_def len_example_def)

lemma ceiling_div_nat:
  assumes "0 < n"
  shows "\<lceil>(of_nat b :: rat) / of_nat n\<rceil>
      = (if (b div n) * n < b then int (b div n) + 1 else int (b div n))"
proof -
  define q where "q = b div n"
  define m where "m = b mod n"
  have b: "b = q * n + m" by (simp add: q_def m_def)
  have m: "m < n" using assms by (simp add: m_def)
  have npos: "(0 :: rat) < of_nat n" using assms by simp
  have quot: "(of_nat b :: rat) / of_nat n = of_nat q + of_nat m / of_nat n"
    using npos by (simp add: b add_divide_distrib)
  show ?thesis
  proof (cases "m = 0")
    case True
    then have "\<not> q * n < b" using b by simp
    moreover have "\<lceil>(of_nat b :: rat) / of_nat n\<rceil> = int q"
      using True quot by simp
    ultimately show ?thesis by (simp add: q_def)
  next
    case False
    then have lt: "q * n < b" using b by simp
    have f0: "(0 :: rat) < of_nat m / of_nat n" using False npos by simp
    have f1: "(of_nat m :: rat) / of_nat n < 1" using m npos by simp
    have "\<lceil>(of_nat b :: rat) / of_nat n\<rceil> = int q + 1"
    proof (rule ceiling_unique)
      show "of_int (int q + 1) - 1 < (of_nat b :: rat) / of_nat n" using f0 by (simp add: quot)
      show "(of_nat b :: rat) / of_nat n \<le> of_int (int q + 1)" using f1 by (simp add: quot)
    qed
    then show ?thesis using lt by (simp add: q_def)
  qed
qed

lemma cls_size_ceiling:
  assumes "aug_factor g = 0" and "0 < n_classes g" and "int (n_classes g) < 2 ^ 53"
    and "int (batch_size g) < 2 ^ 53"
  shows "cls_size g
      = Inr \<lceil>of_nat (batch_size g) / ((1 + aug_factor g) * of_nat (n_classes g))\<rceil>"
  using cls_size_no_aug [OF assms] ceiling_div_nat [OF assms(2), of "batch_size g"]
  by (simp add: assms(1))

lemma data_generation_plain_labels:
  assumes "\<not> augment g" and "data_generation e g idxs r = Inr ((X, y), r')"
  shows "length X = length idxs \<and> y = map (\<lambda>idx. one_hot (n_classes g) (labels g ! idx)) idxs"
proof -
  from assms(2) obtain Xraw yraw where
    asm: "assemble e g idxs r = Inr ((Xraw, yraw), r')"
    and nrm: "normalize_batch g Xraw = Inr X"
    and cat: "to_categorical yraw (n_classes g) = Inr y"
    unfolding data_generation_def by (auto split: sum.splits prod.splits)
  from asm assms(1) have ld: "load_rows e g (batch_size g) 0 idxs = Inr (Xraw, yraw)"
    unfolding assemble_def by (auto split: sum.splits prod.splits)
  from load_rows_result [OF ld] have
    L: "map (\<lambda>idx. np_load e (filenames g ! idx)) idxs = map Some Xraw"
    and yl: "yraw = map (\<lambda>idx. labels g ! idx) idxs" by simp_all
  from L have lenL: "length Xraw = length idxs" by (metis length_map)
  have lenX: "length X = length Xraw"
    using nrm by (auto simp: normalize_batch_def split: option.splits if_splits)
  have y: "y = map (one_hot (n_classes g)) yraw"
    using cat by (auto simp: to_categorical_def split: if_splits)
  from lenX lenL y yl show ?thesis by simp
qed

lemma image_mset_pool:
  assumes "mset p \<subseteq># mset (cls_pool g c)"
  shows "image_mset (\<lambda>idx. F (labels g ! idx)) (mset p) = replicate_mset (length p) (F c)"
proof -
  have "labels g ! idx = c" if "idx \<in># mset p" for idx
  proof -
    from assms that have "idx \<in># mset (cls_pool g c)" by (rule mset_subset_eqD)
    then show ?thesis by (simp add: cls_pool_def)
  qed
  then have "image_mset (\<lambda>idx. F (labels g ! idx)) (mset p) = image_mset (\<lambda>idx. F c) (mset p)"
    by (intro image_mset_cong) simp
  then show ?thesis by (simp add: image_mset_const_eq)
qed

lemma balanced_scenario:
  assumes "balance g" and "\<not> augment g" and "aug_factor g = 0"
    and "batch_size g = 4" and "n_classes g = 2" and "length (classes g) = 2"
    and "getitem e g index r = Inr ((X, y), r')"
  shows "length X = 4 \<and> mset y = {#[1, 0], [1, 0], [0, 1], [0, 1]#}"
proof -
  from assms(1,7) obtain idxs r1 where
    sel: "balanced_indices e g r = Inr (idxs, r1)"
    and gen: "data_generation e g idxs r1 = Inr ((X, y), r')"
    unfolding getitem_def select_indices_def by (auto split: sum.splits prod.splits)
  have k: "cls_size g = Inr 2"
    by (subst cls_size_no_aug) (simp_all add: assms)
  from balanced_indices_structure [OF sel] k obtain parts shuffled where
    s: "length parts = length (classes g)"
    "\<forall>c < length (classes g). length (parts ! c) = nat 2
        \<and> mset (parts ! c) \<subseteq># mset (cls_pool g c)"
    "mset shuffled = mset (concat parts)" "idxs = take (batch_size g) shuffled"
    by auto
  obtain p0 p1 where parts: "parts = [p0, p1]"
    using s(1) assms(6) by (cases parts; cases "tl parts"; cases "tl (tl parts)") auto
  from s(2) assms(6) have p0: "length p0 = 2" "mset p0 \<subseteq># mset (cls_pool g 0)"
    and p1: "length p1 = 2" "mset p1 \<subseteq># mset (cls_pool g 1)"
    by (auto simp: parts dest: spec [of _ 0] spec [of _ 1])
  have ms: "mset shuffled = mset p0 + mset p1" using s(3) by (simp add: parts)
  then have "size (mset shuffled) = 4" using p0(1) p1(1) by simp
  then have "length shuffled = 4" by simp
  then have ix: "idxs = shuffled" using s(4) assms(4) by simp
  from data_generation_plain_labels [OF assms(2) gen] have
    lx: "length X = length idxs"
    and y: "y = map (\<lambda>idx. one_hot (n_classes g) (labels g ! idx)) idxs" by simp_all
  have "mset y = image_mset (\<lambda>idx. one_hot 2 (labels g ! idx)) (mset shuffled)"
    using y ix assms(5) by simp
  also have "\<dots> = image_mset (\<lambda>idx. one_hot 2 (labels g ! idx)) (mset p0 + mset p1)"
    by (simp only: ms)
  also have "\<dots> = replicate_mset 2 (one_hot 2 0) + replicate_mset 2 (one_hot 2 1)"
    using image_mset_pool [OF p0(2), of "one_hot 2"] image_mset_pool [OF p1(2), of "one_hot 2"]
    by (simp add: p0(1) p1(1))
  also have "\<dots> = {#[1, 0], [1, 0], [0, 1], [0, 1]#}"
    by (simp add: one_hot_def numeral_2_eq_2)
  finally show ?thesis using lx ix \<open>length shuffled = 4\<close> by simp
qed

lemma distinct_of_subset_mset:
  assumes "mset xs \<subseteq># mset ys" and "distinct ys"
  shows "distinct xs"
proof -
  have le: "count (mset xs) a \<le> 1" for a
  proof -
    have "count (mset xs) a \<le> count (mset ys) a"
      using assms(1) by (rule mset_subset_eq_count)
    also have "\<dots> \<le> 1" using assms(2) by (simp add: distinct_count_atmost_1)
    finally show ?thesis .
  qed
  show ?thesis
    unfolding distinct_count_atmost_1
  proof (intro allI)
    fix a
    show "count (mset xs) a = (if a \<in> set xs then 1 else 0)"
    proof (cases "a \<in> set xs")
      case True
      then have "a \<in># mset xs" by simp
      then have "0 < count (mset xs) a" by (simp only: count_greater_zero_iff)
      with le [of a] have "count (mset xs) a = 1" by linarith
      with True show ?thesis by simp
    next
      case False
      then have "a \<notin># mset xs" by simp
      then have "count (mset xs) a = 0" by (simp only: not_in_iff)
      with False show ?thesis by simp
    qed
  qed
qed

text \<open>
  C4, as stated, fails. With batches of \<open>21\<close>, five classes and \<open>aug_factor = 0.4\<close> the code
  computes the quota \<open>4\<close> in double arithmetic, while
  \<open>ceil(batch_size / ((1 + aug_factor) * n_classes))\<close> is \<open>3\<close>, for the double \<open>0.4\<close> and for
  the fraction \<open>2/5\<close> alike.
\<close>

theorem balanced_quota_counterexample:
  "cls_size quota_ex = Inr 4
   \<and> \<lceil>of_nat (batch_size quota_ex)
        / ((1 + aug_factor quota_ex) * of_nat (n_classes quota_ex))\<rceil> = 3
   \<and> \<lceil>of_nat (batch_size quota_ex)
        / ((1 + 2 / 5) * (of_nat (n_classes quota_ex) :: rat))\<rceil> = 3"
proof (intro conjI)
  show "cls_size quota_ex = Inr 4" by (rule cls_size_quota_ex)
  show "\<lceil>of_nat (batch_size quota_ex)
        / ((1 + aug_factor quota_ex) * of_nat (n_classes quota_ex))\<rceil> = 3"
    by (rule ceiling_quota_ex)
  show "\<lceil>of_nat (batch_size quota_ex)
        / ((1 + 2 / 5) * (of_nat (n_classes quota_ex) :: rat))\<rceil> = 3"
    by (rule ceiling_unique) (simp_all add: quota_ex_def len_example_def)
qed

text \<open>
  C4, amended. Let \<open>__getitem__\<close> return a batch in balanced mode. The per-class target
  count \<open>k\<close> is the quota the code computes in double arithmetic. The selected indices
  are the first \<open>batch_size\<close> entries of a permutation of the concatenated picks, and the
  picks are, for each class counter below \<open>len(classes)\<close>, exactly \<open>k\<close> indices of that
  class's pool, no position twice. When \<open>aug_factor = 0\<close> (and the sizes are below \<open>2\<^sup>5\<^sup>3\<close>)
  the quota is \<open>ceil(batch_size / ((1 + aug_factor) * n_classes))\<close>. In the scenario with
  \<open>batch_size = 4\<close>, two classes, no augmentation and \<open>aug_factor = 0\<close>, every returned batch
  has four samples, exactly two of class \<open>0\<close> and two of class \<open>1\<close>.
\<close>

theorem balanced_quota_and_picks:
  assumes "balance g" and "getitem e g index r = Inr ((X, y), r')"
  shows "(\<exists>idxs r1 k parts shuffled.
            select_indices e g index r = Inr (idxs, r1)
            \<and> data_generation e g idxs r1 = Inr ((X, y), r')
            \<and> cls_size g = Inr k
            \<and> length parts = length (classes g)
            \<and> (\<forall>c < length (classes g). length (parts ! c) = nat k
                  \<and> mset (parts ! c) \<subseteq># mset (cls_pool g c) \<and> distinct (parts ! c))
            \<and> mset shuffled = mset (concat parts)
            \<and> idxs = take (batch_size g) shuffled)
       \<and> (aug_factor g = 0 \<and> 0 < n_classes g \<and> int (n_classes g) < 2 ^ 53
            \<and> int (batch_size g) < 2 ^ 53 \<longrightarrow>
            cls_size g
              = Inr \<lceil>of_nat (batch_size g) / ((1 + aug_factor g) * of_nat (n_classes g))\<rceil>)
       \<and> (\<not> augment g \<and> aug_factor g = 0 \<and> batch_size g = 4 \<and> n_classes g = 2
            \<and> length (classes g) = 2 \<longrightarrow>
            length X = 4 \<and> mset y = {#[1, 0], [1, 0], [0, 1], [0, 1]#})"
proof (intro conjI impI)
  from assms obtain idxs r1 where
    sel: "select_indices e g index r = Inr (idxs, r1)"
    and bal: "balanced_indices e g r = Inr (idxs, r1)"
    and gen: "data_generation e g idxs r1 = Inr ((X, y), r')"
    unfolding getitem_def select_indices_def by (auto split: sum.splits prod.splits)
  from balanced_indices_structure [OF bal] obtain k parts shuffled where
    s: "cls_size g = Inr k" "length parts = length (classes g)"
    "\<forall>c < length (classes g). length (parts ! c) = nat k
        \<and> mset (parts ! c) \<subseteq># mset (cls_pool g c)"
    "mset shuffled = mset (concat parts)" "idxs = take (batch_size g) shuffled"
    by (elim exE conjE)
  have d: "distinct (parts ! c)" if "c < length (classes g)" for c
  proof -
    have "distinct (cls_pool g c)" by (simp add: cls_pool_def)
    moreover have "mset (parts ! c) \<subseteq># mset (cls_pool g c)" using s(3) that by simp
    ultimately show ?thesis by (rule distinct_of_subset_mset [rotated])
  qed
  show "\<exists>idxs r1 k parts shuffled.
            select_indices e g index r = Inr (idxs, r1)
            \<and> data_generation e g idxs r1 = Inr ((X, y), r')
            \<and> cls_size g = Inr k
            \<and> length parts = length (classes g)
            \<and> (\<forall>c < length (classes g). length (parts ! c) = nat k
                  \<and> mset (parts ! c) \<subseteq># mset (cls_pool g c) \<and> distinct (parts ! c))
            \<and> mset shuffled = mset (concat parts)
            \<and> idxs = take (batch_size g) shuffled"
    by (rule exI [of _ idxs], rule exI [of _ r1], rule exI [of _ k], rule exI [of _ parts],
        rule exI [of _ shuffled])
       (use sel gen s d in simp)
next
  assume "aug_factor g = 0 \<and> 0 < n_classes g \<and> int (n_classes g) < 2 ^ 53
      \<and> int (batch_size g) < 2 ^ 53"
  then show "cls_size g
      = Inr \<lceil>of_nat (batch_size g) / ((1 + aug_factor g) * of_nat (n_classes g))\<rceil>"
    by (intro cls_size_ceiling) simp_all
next
  assume a: "\<not> augment g \<and> aug_factor g = 0 \<and> batch_size g = 4 \<and> n_classes g = 2
      \<and> length (classes g) = 2"
  have "length X = 4 \<and> mset y = {#[1, 0], [1, 0], [0, 1], [0, 1]#}"
    by (rule balanced_scenario [OF assms(1) _ _ _ _ _ assms(2)]) (use a in simp_all)
  then show "length X = 4" and "mset y = {#[1, 0], [1, 0], [0, 1], [0, 1]#}" by simp_all
qed

theorem balanced_quota_and_picks_witness:
  "getitem env_ex scenario_ex 0 0
     = Inr ((map (\<lambda>v. replicate 5 [v, v]) [0, 9, 2, 7], [[1, 0], [0, 1], [1, 0], [0, 1]]), 8)
   \<and> cls_size scenario_ex = Inr 2
   \<and> length (map (\<lambda>v. replicate 5 [v, v :: rat]) [0, 9, 2, 7]) = 4
   \<and> mset [[1, 0], [0, 1], [1, 0], [0, 1 :: nat]] = {#[1, 0], [1, 0], [0, 1], [0, 1]#}"
proof -
  have q: "cls_size scenario_ex = Inr 2"
    by (subst cls_size_no_aug) (simp_all add: scenario_ex_def)
  have p: "balanced_picks (rand env_ex) scenario_ex 2 [0..<length (classes scenario_ex)] 0
      = Inr ([0, 2, 7, 9], 4)"
    unfolding env_ex_def scenario_ex_def by code_simp
  have s: "random_shuffle (rand env_ex) [0, 2, 7, 9 :: nat] 4 = ([0, 9, 2, 7], 8)"
    unfolding env_ex_def by code_simp
  have d: "data_generation env_ex scenario_ex [0, 9, 2, 7] 8
      = Inr ((map (\<lambda>v. replicate 5 [v, v]) [0, 9, 2, 7], [[1, 0], [0, 1], [1, 0], [0, 1]]), 8)"
    unfolding env_ex_def scenario_ex_def by code_simp
  have f: "balance scenario_ex" "\<not> augment scenario_ex" "batch_size scenario_ex = 4"
    "aug_factor scenario_ex = 0" "n_classes scenario_ex = 2"
    by (simp_all add: scenario_ex_def)
  have f': "length (classes scenario_ex) = 2" by (simp add: scenario_ex_def)
  have sel: "select_indices env_ex scenario_ex 0 0 = Inr ([0, 9, 2, 7], 8)"
    unfolding select_indices_def balanced_indices_def q
    by (simp add: p s f)
  have ev: "getitem env_ex scenario_ex 0 0
     = Inr ((map (\<lambda>v. replicate 5 [v, v]) [0, 9, 2, 7], [[1, 0], [0, 1], [1, 0], [0, 1]]), 8)"
    by (simp only: getitem_def sel sum.case prod.case d)
  note t = balanced_quota_and_picks [OF f(1) ev, THEN conjunct2, THEN conjunct2, THEN mp]
  have "length (map (\<lambda>v. replicate 5 [v, v :: rat]) [0, 9, 2, 7]) = 4
      \<and> mset [[1, 0], [0, 1], [1, 0], [0, 1 :: nat]] = {#[1, 0], [1, 0], [0, 1], [0, 1]#}"
    by (rule t) (simp add: f f')
  with ev q show ?thesis by (intro conjI) simp_all
qed

section \<open>A plain epoch reproduces the dataset\<close>

lemma len_dg_len_example: "len_dg len_example = Inr 4"
proof -
  have "len_dg len_example
      = Inr (if of_int \<lfloor>(21 / 2 :: rat) / of_nat (batch_size len_example)\<rfloor>
                  * of_nat (batch_size len_example) < (21 / 2 :: rat)
             then \<lfloor>(21 / 2 :: rat) / of_nat (batch_size len_example)\<rfloor> + 1
             else \<lfloor>(21 / 2 :: rat) / of_nat (batch_size len_example)\<rfloor>)"
    by (rule len_dg_float [OF float_total_len_example]) (simp_all add: len_example_def)
  then show ?thesis by (simp add: len_example_def floor_rat_numeral)
qed

text \<open>
  C5, as stated, fails when \<open>augment\<close> is off but \<open>aug_factor\<close> is positive. With seven files,
  batches of three and \<open>aug_factor = 0.5\<close>, neither balanced nor augmented nor shuffled,
  \<open>__len__\<close> returns \<open>4\<close>. The batches \<open>0\<close>, \<open>1\<close> and \<open>2\<close> hold the seven samples, and the final
  batch, of index \<open>3\<close>, is empty, while \<open>7 mod 3 = 1\<close>.
\<close>

theorem plain_epoch_counterexample:
  "\<not> balance len_example \<and> \<not> augment len_example \<and> \<not> shuffle len_example
   \<and> fst (init_dg env_nat len_example 0) = len_example
   \<and> len_dg len_example = Inr 4
   \<and> getitem env_nat len_example 0 0 = Inr (([[[0]], [[1]], [[2]]], [[1], [1], [1]]), 0)
   \<and> getitem env_nat len_example 1 0 = Inr (([[[3]], [[4]], [[5]]], [[1], [1], [1]]), 0)
   \<and> getitem env_nat len_example 2 0 = Inr (([[[6]]], [[1]]), 0)
   \<and> getitem env_nat len_example 3 0 = Inr (([], []), 0)
   \<and> length (filenames len_example) mod batch_size len_example = 1"
proof (intro conjI)
  show "\<not> balance len_example" "\<not> augment len_example" "\<not> shuffle len_example"
    by (simp_all add: len_example_def)
  show "fst (init_dg env_nat len_example 0) = len_example"
    by (simp add: init_dg_def on_epoch_end_def len_example_def upt_rec)
  show "len_dg len_example = Inr 4" by (rule len_dg_len_example)
  show "getitem env_nat len_example 0 0 = Inr (([[[0]], [[1]], [[2]]], [[1], [1], [1]]), 0)"
    unfolding env_nat_def len_example_def by code_simp
  show "getitem env_nat len_example 1 0 = Inr (([[[3]], [[4]], [[5]]], [[1], [1], [1]]), 0)"
    unfolding env_nat_def len_example_def by code_simp
  show "getitem env_nat len_example 2 0 = Inr (([[[6]]], [[1]]), 0)"
    unfolding env_nat_def len_example_def by code_simp
  show "getitem env_nat len_example 3 0 = Inr (([], []), 0)"
    unfolding env_nat_def len_example_def by code_simp
  show "length (filenames len_example) mod batch_size len_example = 1"
    by (simp add: len_example_def)
qed


text \<open>
  C5, amended. Take a supplier that is not balanced, not augmented (\<open>augment\<close> off and
  \<open>aug_factor = 0\<close>) and not shuffled, with a positive \<open>batch_size\<close>, sizes below \<open>2\<^sup>5\<^sup>3\<close>, one
  label per file, every label below \<open>n_classes\<close>, files that all load with the configured
  shape, and statistics that normalisation accepts. After the constructor, \<open>__len__\<close>
  returns a number \<open>n\<close> of batches, each \<open>__getitem__(i)\<close> for \<open>i < n\<close> returns, and the
  batches concatenated in index order are the whole dataset in its original order,
  every sample once (normalised when \<open>mean\<close> and \<open>std\<close> are both set, unchanged otherwise),
  with the one-hot labels in the same order. The last batch has
  \<open>len(filenames) mod batch_size\<close> samples, or \<open>batch_size\<close> when that remainder is \<open>0\<close>.
\<close>

theorem plain_epoch_covers_dataset:
  assumes "\<not> balance g" and "\<not> augment g" and "\<not> shuffle g" and "aug_factor g = 0"
    and "0 < batch_size g" and "int (batch_size g) < 2 ^ 53"
    and "int (length (filenames g)) < 2 ^ 53"
    and "length (labels g) = length (filenames g)"
    and "\<forall>l \<in> set (labels g). l < n_classes g"
    and "map (np_load e) (filenames g) = map Some D"
    and "list_all (shape_ok g) D"
    and "normalize_batch g D = Inr Dn"
  shows "\<exists>n Xs ys.
      len_dg (fst (init_dg e g r0)) = Inr (int n)
      \<and> length Xs = n \<and> length ys = n
      \<and> (\<forall>i < n. getitem e (fst (init_dg e g r0)) i r = Inr ((Xs ! i, ys ! i), r))
      \<and> concat Xs = Dn
      \<and> concat ys = map (one_hot (n_classes g)) (labels g)
      \<and> (mean g = None \<or> std g = None \<longrightarrow> Dn = D)
      \<and> (0 < n \<longrightarrow> length (Xs ! (n - 1))
            = (if length (filenames g) mod batch_size g = 0 then batch_size g
               else length (filenames g) mod batch_size g))"
proof -
  define len where "len = length (filenames g)"
  define bs where "bs = batch_size g"
  define g' where "g' = g\<lparr>indices := [0..<len]\<rparr>"
  define n where "n = (if (len div bs) * bs < len then len div bs + 1 else len div bs)"
  have init: "fst (init_dg e g r0) = g'"
    using assms(3) by (simp add: init_dg_def on_epoch_end_def g'_def len_def)
  have bpos: "0 < bs" using assms(5) by (simp add: bs_def)
  have cover: "len \<le> n * bs" using bpos n_def by (rule batch_count_bounds)
  have below: "(n - 1) * bs < len" if "0 < n" using bpos n_def that by (rule batch_count_bounds)
  have len_dg: "len_dg g' = Inr (int n)"
  proof -
    have "len_dg g'
      = Inr (if (length (filenames g') div batch_size g') * batch_size g' < length (filenames g')
             then int (length (filenames g') div batch_size g') + 1
             else int (length (filenames g') div batch_size g'))"
      by (rule len_dg_no_aug) (use assms(4-7) in \<open>simp_all add: g'_def\<close>)
    then show ?thesis by (simp add: g'_def n_def len_def bs_def)
  qed
  from normalize_batch_map [OF assms(12)] obtain f where
    f: "Dn = map f D" "\<forall>X. normalize_batch g X = Inr (map f X)"
    "mean g = None \<or> std g = None \<longrightarrow> Dn = D"
    by (elim exE conjE)
  have lenD: "length D = len"
    using assms(10) unfolding len_def by (metis length_map)
  have loadD: "np_load e (filenames g ! idx) = Some (D ! idx)" if "idx < len" for idx
  proof -
    have "map (np_load e) (filenames g) ! idx = map Some D ! idx" using assms(10) by simp
    then show ?thesis using that lenD by (simp add: len_def)
  qed
  have shapeD: "shape_ok g (D ! idx)" if "idx < len" for idx
    using assms(11) that lenD by (simp add: list_all_length)
  define sl where "sl i = take bs (drop (i * bs) [0..<len])" for i
  define bX where "bX i = map (\<lambda>idx. f (D ! idx)) (sl i)" for i
  define bY where "bY i = map (\<lambda>idx. one_hot (n_classes g) (labels g ! idx)) (sl i)" for i
  have sl_set: "idx < len" if "idx \<in> set (sl i)" for idx i
    using that unfolding sl_def by (auto dest!: in_set_takeD in_set_dropD)
  have sl_len: "length (sl i) \<le> bs" for i by (simp add: sl_def)
  have item: "getitem e g' i r = Inr ((bX i, bY i), r)" for i
  proof -
    have pi: "plain_indices g' i = sl i"
      using plain_indices_slice [of g' i] by (simp add: g'_def len_def sl_def bs_def)
    have "load_rows e g' (batch_size g') 0 (sl i)
        = Inr (map (\<lambda>idx. D ! idx) (sl i), map (\<lambda>idx. labels g' ! idx) (sl i))"
    proof (rule load_rows_succeeds)
      show "\<forall>idx \<in> set (sl i). idx < length (filenames g') \<and> idx < length (labels g')
          \<and> np_load e (filenames g' ! idx) = Some (D ! idx) \<and> shape_ok g' (D ! idx)"
        using sl_set loadD shapeD assms(8)
        by (auto simp: g'_def len_def shape_ok_def)
      show "length (sl i) \<le> batch_size g' - 0" using sl_len by (simp add: g'_def bs_def)
    qed
    then have asm: "assemble e g' (sl i) r
        = Inr ((map (\<lambda>idx. D ! idx) (sl i), map (\<lambda>idx. labels g ! idx) (sl i)), r)"
      using assms(2) by (simp add: assemble_def g'_def)
    have "normalize_batch g' X = normalize_batch g X" for X
      by (simp add: normalize_batch_def g'_def shape_ok_def split: option.splits)
    then have nb: "normalize_batch g' X = Inr (map f X)" for X
      using f(2) by simp
    have "\<forall>l \<in> set (map (\<lambda>idx. labels g ! idx) (sl i)). l < n_classes g'"
    proof
      fix l
      assume "l \<in> set (map (\<lambda>idx. labels g ! idx) (sl i))"
      then obtain idx where idx: "idx \<in> set (sl i)" "l = labels g ! idx" by auto
      then have "idx < length (labels g)" using sl_set assms(8) by (simp add: len_def)
      then have "l \<in> set (labels g)" using idx(2) by simp
      then show "l < n_classes g'" using assms(9) by (simp add: g'_def)
    qed
    then have tc: "to_categorical (map (\<lambda>idx. labels g ! idx) (sl i)) (n_classes g')
        = Inr (map (one_hot (n_classes g')) (map (\<lambda>idx. labels g ! idx) (sl i)))"
      by (rule to_categorical_ok)
    have "data_generation e g' (sl i) r = Inr ((bX i, bY i), r)"
      unfolding data_generation_def asm
      by (simp add: nb tc bX_def bY_def) (simp add: g'_def)
    then show ?thesis
      using assms(1) pi by (simp add: getitem_def select_indices_def g'_def)
  qed
  define Xs where "Xs = map bX [0..<n]"
  define ys where "ys = map bY [0..<n]"
  have full: "take (n * bs) [0..<len] = [0..<len]" using cover by simp
  have cX: "concat Xs = Dn"
  proof -
    have "concat Xs = map (\<lambda>idx. f (D ! idx)) (take (n * bs) [0..<len])"
      unfolding Xs_def bX_def sl_def by (rule concat_slices)
    also have "\<dots> = map (\<lambda>idx. f (D ! idx)) [0..<len]"
      by (simp only: full)
    also have "\<dots> = map f (map (\<lambda>idx. D ! idx) [0..<length D])"
      by (simp add: lenD comp_def)
    also have "\<dots> = map f D" by (simp only: map_nth)
    finally show ?thesis by (simp add: f(1))
  qed
  have cY: "concat ys = map (one_hot (n_classes g)) (labels g)"
  proof -
    have "concat ys = map (\<lambda>idx. one_hot (n_classes g) (labels g ! idx)) (take (n * bs) [0..<len])"
      unfolding ys_def bY_def sl_def by (rule concat_slices)
    also have "\<dots> = map (\<lambda>idx. one_hot (n_classes g) (labels g ! idx)) [0..<len]"
      by (simp only: full)
    also have "\<dots> = map (one_hot (n_classes g)) (map (\<lambda>idx. labels g ! idx) [0..<length (labels g)])"
      using assms(8) by (simp add: len_def comp_def)
    also have "\<dots> = map (one_hot (n_classes g)) (labels g)" by (simp only: map_nth)
    finally show ?thesis .
  qed
  have last: "length (Xs ! (n - 1))
      = (if length (filenames g) mod batch_size g = 0 then batch_size g
         else length (filenames g) mod batch_size g)" if "0 < n"
  proof -
    have "Xs ! (n - 1) = bX (n - 1)" using that by (simp add: Xs_def)
    then have "length (Xs ! (n - 1)) = min bs (len - (n - 1) * bs)"
      by (simp add: bX_def sl_def min.commute)
    also have "\<dots> = (if len mod bs = 0 then bs else len mod bs)"
    proof (rule last_batch_size)
      show "0 < bs" by (rule bpos)
      show "(n - 1) * bs < len" using that by (rule below)
      show "len \<le> (n - 1 + 1) * bs" using cover that by simp
    qed
    finally show ?thesis by (simp add: len_def bs_def)
  qed
  have items: "\<forall>i < n. getitem e g' i r = Inr ((Xs ! i, ys ! i), r)"
    using item by (simp add: Xs_def ys_def)
  show ?thesis
    unfolding init
    by (rule exI [of _ n], rule exI [of _ Xs], rule exI [of _ ys])
       (use len_dg items cX cY f(3) last in \<open>simp add: Xs_def ys_def\<close>)
qed

theorem plain_epoch_covers_dataset_witness:
  "\<exists>Xs ys. len_dg (fst (init_dg env_ex plain_ex 0)) = Inr 3
     \<and> length Xs = 3
     \<and> (\<forall>i < 3. getitem env_ex (fst (init_dg env_ex plain_ex 0)) i 0 = Inr ((Xs ! i, ys ! i), 0))
     \<and> concat Xs = filenames plain_ex
     \<and> concat ys = [[1, 0], [1, 0], [0, 1], [0, 1], [1, 0]]
     \<and> length (Xs ! 2) = 1"
proof -
  have h: "\<not> balance plain_ex" "\<not> augment plain_ex" "\<not> shuffle plain_ex"
    "aug_factor plain_ex = 0" "0 < batch_size plain_ex" "int (batch_size plain_ex) < 2 ^ 53"
    "int (length (filenames plain_ex)) < 2 ^ 53"
    "length (labels plain_ex) = length (filenames plain_ex)"
    "\<forall>l \<in> set (labels plain_ex). l < n_classes plain_ex"
    "map (np_load env_ex) (filenames plain_ex) = map Some (filenames plain_ex)"
    "list_all (shape_ok plain_ex) (filenames plain_ex)"
    "normalize_batch plain_ex (filenames plain_ex) = Inr (filenames plain_ex)"
    by (simp_all add: plain_ex_def env_ex_def shape_ok_def normalize_batch_def)
  from plain_epoch_covers_dataset [OF h, of 0 0] obtain n Xs ys where
    r: "len_dg (fst (init_dg env_ex plain_ex 0)) = Inr (int n)"
    "length Xs = n" "length ys = n"
    "\<forall>i < n. getitem env_ex (fst (init_dg env_ex plain_ex 0)) i 0 = Inr ((Xs ! i, ys ! i), 0)"
    "concat Xs = filenames plain_ex"
    "concat ys = map (one_hot (n_classes plain_ex)) (labels plain_ex)"
    "0 < n \<longrightarrow> length (Xs ! (n - 1))
        = (if length (filenames plain_ex) mod batch_size plain_ex = 0 then batch_size plain_ex
           else length (filenames plain_ex) mod batch_size plain_ex)"
    by (elim exE conjE)
  have "len_dg (fst (init_dg env_ex plain_ex 0)) = Inr 3"
    by (subst len_dg_no_aug)
       (simp_all add: init_dg_def on_epoch_end_def plain_ex_def)
  with r(1) have n: "n = 3" by simp
  have y: "map (one_hot (n_classes plain_ex)) (labels plain_ex)
      = [[1, 0], [1, 0], [0, 1], [0, 1], [1, 0]]"
    unfolding plain_ex_def by code_simp
  have l: "(if length (filenames plain_ex) mod batch_size plain_ex = 0 then batch_size plain_ex
           else length (filenames plain_ex) mod batch_size plain_ex) = 1"
    by (simp add: plain_ex_def)
  show ?thesis
    by (rule exI [of _ Xs], rule exI [of _ ys]) (use r n y l in simp)
qed

section \<open>Normalisation of a batch\<close>

text \<open>
  C6. Let \<open>__getitem__\<close> return the batch \<open>X\<close>, and let \<open>Xraw\<close> be the loaded (and, in augmented
  mode, augmented) samples of the selected indices. \<open>X\<close> has as many samples as \<open>Xraw\<close>.
  When \<open>mean\<close> and \<open>std\<close> are both set, every entry of every sample of \<open>X\<close> is the entry
  of \<open>Xraw\<close> minus the entry of \<open>mean\<close> at the same position and channel, divided by that
  entry of \<open>std\<close>. When \<open>mean\<close> or \<open>std\<close> is \<open>None\<close>, in particular when both are, \<open>X\<close> is
  \<open>Xraw\<close>.
\<close>

theorem getitem_normalized:
  assumes "getitem e g index r = Inr ((X, y), r')"
  shows "\<exists>idxs r1 Xraw yraw.
      select_indices e g index r = Inr (idxs, r1)
      \<and> assemble e g idxs r1 = Inr ((Xraw, yraw), r')
      \<and> length X = length Xraw
      \<and> (mean g = None \<or> std g = None \<longrightarrow> X = Xraw)
      \<and> (\<forall>m s. mean g = Some m \<and> std g = Some s \<longrightarrow>
            (\<forall>b < length X. \<forall>p < seqlen g. \<forall>c < n_channels g.
               X ! b ! p ! c = (Xraw ! b ! p ! c - m ! p ! c) / s ! p ! c))"
proof -
  from assms obtain idxs r1 where
    sel: "select_indices e g index r = Inr (idxs, r1)"
    and gen: "data_generation e g idxs r1 = Inr ((X, y), r')"
    unfolding getitem_def by (auto split: sum.splits prod.splits)
  from data_generation_normalized [OF gen] obtain Xraw yraw where
    raw: "assemble e g idxs r1 = Inr ((Xraw, yraw), r')
      \<and> length X = length Xraw
      \<and> (mean g = None \<or> std g = None \<longrightarrow> X = Xraw)
      \<and> (\<forall>m s. mean g = Some m \<and> std g = Some s \<longrightarrow>
            (\<forall>b < length X. \<forall>p < seqlen g. \<forall>c < n_channels g.
               X ! b ! p ! c = (Xraw ! b ! p ! c - m ! p ! c) / s ! p ! c))"
    by (elim exE)
  show ?thesis
    by (rule exI [of _ idxs], rule exI [of _ r1], rule exI [of _ Xraw], rule exI [of _ yraw])
       (use sel raw in simp)
qed

theorem getitem_normalized_witness:
  "getitem env_ex norm_ex 0 0 = Inr (([[[0]], [[1 / 2]]], [[1, 0], [1, 0]]), 0)
   \<and> (\<exists>Xraw yraw. assemble env_ex norm_ex [0, 1] 0 = Inr ((Xraw, yraw), 0)
        \<and> [[[0]], [[1 / 2]]] ! 1 ! 0 ! 0 = (Xraw ! 1 ! 0 ! 0 - [[1]] ! 0 ! 0) / [[2]] ! 0 ! 0)"
proof -
  have ev: "getitem env_ex norm_ex 0 0 = Inr (([[[0]], [[1 / 2]]], [[1, 0], [1, 0]]), 0)"
    unfolding env_ex_def norm_ex_def balanced_ex_def by code_simp
  have sel: "select_indices env_ex norm_ex 0 0 = Inr ([0, 1], 0)"
    unfolding env_ex_def norm_ex_def balanced_ex_def by code_simp
  have m: "mean norm_ex = Some [[1]]" "std norm_ex = Some [[2]]"
    "seqlen norm_ex = 1" "n_channels norm_ex = 1"
    by (simp_all add: norm_ex_def balanced_ex_def)
  from getitem_normalized [OF ev] sel m ev show ?thesis by auto
qed

section \<open>The assertion of balanced augmentation\<close>

text \<open>
  C7. In balanced mode with augmentation enabled, \<open>__getitem__\<close> fails with the
  \<open>AssertionError\<close> of \<^verbatim>\<open>assert self.aug_factor > 0.0\<close> whenever \<open>aug_factor\<close> is not strictly
  positive, and with a strictly positive \<open>aug_factor\<close> it never fails with that error.
\<close>

theorem balanced_augment_assertion:
  assumes "balance g" and "augment g"
  shows "(\<not> 0 < aug_factor g \<longrightarrow> getitem e g index r = Inl AssertionError)
       \<and> (0 < aug_factor g \<longrightarrow> getitem e g index r \<noteq> Inl AssertionError)"
proof (intro conjI impI)
  assume "\<not> 0 < aug_factor g"
  with assms show "getitem e g index r = Inl AssertionError"
    by (simp add: getitem_def select_indices_def balanced_indices_def)
next
  assume pos: "0 < aug_factor g"
  show "getitem e g index r \<noteq> Inl AssertionError"
  proof
    assume a: "getitem e g index r = Inl AssertionError"
    show False
    proof (cases "balanced_indices e g r")
      case (Inl err)
      with a assms have "err = AssertionError" by (simp add: getitem_def select_indices_def)
      with Inl pos assms show False
        unfolding balanced_indices_def
        by (auto split: sum.splits prod.splits dest: cls_size_Inl balanced_picks_Inl)
    next
      case (Inr p)
      with a assms show False
        by (auto simp: getitem_def select_indices_def split: prod.splits dest: data_generation_Inl)
    qed
  qed
qed

theorem balanced_augment_assertion_witness:
  "getitem env_ex (balanced_ex\<lparr>augment := True\<rparr>) 0 0 = Inl AssertionError
   \<and> getitem env_ex (balanced_ex\<lparr>augment := True, aug_factor := 1\<rparr>) 0 0 \<noteq> Inl AssertionError"
  using balanced_augment_assertion [of "balanced_ex\<lparr>augment := True\<rparr>" env_ex 0 0]
    balanced_augment_assertion [of "balanced_ex\<lparr>augment := True, aug_factor := 1\<rparr>" env_ex 0 0]
  by (simp add: balanced_ex_def)

section \<open>A class with too few samples\<close>

text \<open>
  C8. In balanced mode, once the assertion has passed and the quota \<open>k\<close> is computed, a
  class whose index pool holds fewer than \<open>k\<close> samples makes \<open>__getitem__\<close> fail with the
  \<open>ValueError\<close> of \<^verbatim>\<open>np.random.choice(..., replace=False)\<close>: no batch is returned, so the
  quota is neither truncated nor filled by sampling with replacement.
\<close>

theorem insufficient_population:
  assumes "balance g"
    and "\<not> (augment g \<and> \<not> 0 < aug_factor g)"
    and "cls_size g = Inr k"
    and "length (labels g) = length (filenames g)"
    and "c < length (classes g)"
    and "int (length (cls_pool g c)) < k"
  shows "getitem e g index r = Inl ValueError"
proof -
  have "c \<in> set [0..<length (classes g)]" using assms(5) by simp
  then have "balanced_picks (rand e) g k [0..<length (classes g)] r = Inl ValueError"
    using assms(4,6) by (intro balanced_picks_deficient) auto
  then have "balanced_indices e g r = Inl ValueError"
    using assms(2,3) by (auto simp: balanced_indices_def)
  then show ?thesis using assms(1) by (simp add: getitem_def select_indices_def)
qed

theorem insufficient_population_witness:
  "getitem env_ex (balanced_ex\<lparr>batch_size := 6\<rparr>) 0 0 = Inl ValueError"
proof -
  have k: "cls_size (balanced_ex\<lparr>batch_size := 6\<rparr>) = Inr 3"
    by (subst cls_size_no_aug) (simp_all add: balanced_ex_def)
  have p: "int (length (cls_pool (balanced_ex\<lparr>batch_size := 6\<rparr>) 1)) < 3"
    unfolding balanced_ex_def by code_simp
  show ?thesis
    by (rule insufficient_population [OF _ _ k _ _ p]) (simp_all add: balanced_ex_def)
qed

section \<open>Balanced batches ignore the batch index and the epoch permutation\<close>

text \<open>
  C9. In balanced mode \<open>__getitem__\<close> reads neither its index nor \<open>self.indices\<close>: from the
  same generator state every index yields the same result, and neither another
  permutation, nor another shuffle flag, nor \<open>on_epoch_end\<close> changes it. So an epoch can
  repeat samples and miss others: with four samples, batches of two and a generator
  whose draws are all \<open>0\<close>, the epoch has two batches, both are the samples \<open>[[1]]\<close> and
  \<open>[[3]]\<close>, and \<open>[[2]]\<close> and \<open>[[4]]\<close> are in neither.
\<close>

theorem balanced_ignores_index:
  assumes "balance g"
  shows "getitem e g i r = getitem e g j r
       \<and> getitem e (g\<lparr>indices := p, shuffle := s\<rparr>) i r = getitem e g i r
       \<and> getitem e (fst (on_epoch_end e g r0)) i r = getitem e g i r
       \<and> len_dg balanced_ex = Inr 2
       \<and> getitem env_const balanced_ex 0 0 = Inr (([[[1]], [[3]]], [[1, 0], [0, 1]]), 0)
       \<and> getitem env_const balanced_ex 1 0 = Inr (([[[1]], [[3]]], [[1, 0], [0, 1]]), 0)"
proof (intro conjI)
  show "getitem e g i r = getitem e g j r"
    using assms by (simp add: getitem_def select_indices_def)
  show upd: "getitem e (g\<lparr>indices := p, shuffle := s\<rparr>) i r = getitem e g i r" for p s
    using assms by (simp add: getitem_def select_indices_def split: sum.splits prod.splits)
  obtain q where "fst (on_epoch_end e g r0) = g\<lparr>indices := q, shuffle := shuffle g\<rparr>"
    using on_epoch_end_indices [of e g r0] by (elim exE)
  then show "getitem e (fst (on_epoch_end e g r0)) i r = getitem e g i r"
    using upd [of "shuffle g" q] by simp
  show "len_dg balanced_ex = Inr 2"
    by (subst len_dg_no_aug) (simp_all add: balanced_ex_def)
  have q: "cls_size balanced_ex = Inr 1"
    by (subst cls_size_no_aug) (simp_all add: balanced_ex_def)
  have p: "balanced_picks (rand env_const) balanced_ex 1 [0..<length (classes balanced_ex)] 0
      = Inr ([0, 2], 0)"
    unfolding env_const_def env_ex_def balanced_ex_def by code_simp
  have s: "random_shuffle (rand env_const) [0, 2 :: nat] 0 = ([0, 2], 0)"
    unfolding env_const_def env_ex_def by code_simp
  have d: "data_generation env_const balanced_ex [0, 2] 0
      = Inr (([[[1]], [[3]]], [[1, 0], [0, 1]]), 0)"
    unfolding env_const_def env_ex_def balanced_ex_def by code_simp
  have f: "balance balanced_ex" "\<not> augment balanced_ex" "batch_size balanced_ex = 2"
    by (simp_all add: balanced_ex_def)
  have sel: "select_indices env_const balanced_ex n 0 = Inr ([0, 2], 0)" for n
    unfolding select_indices_def balanced_indices_def q
    by (simp add: p s f)
  show "getitem env_const balanced_ex 0 0 = Inr (([[[1]], [[3]]], [[1, 0], [0, 1]]), 0)"
    by (simp add: getitem_def sel d)
  show "getitem env_const balanced_ex 1 0 = Inr (([[[1]], [[3]]], [[1, 0], [0, 1]]), 0)"
    by (simp add: getitem_def sel d)
qed

theorem balanced_ignores_index_witness:
  "getitem env_ex balanced_ex 0 0 = getitem env_ex balanced_ex 1 0
   \<and> getitem env_ex (balanced_ex\<lparr>indices := [3, 2, 1, 0], shuffle := True\<rparr>) 0 0
       = getitem env_ex balanced_ex 0 0"
proof -
  have b: "balance balanced_ex" by (simp add: balanced_ex_def)
  from balanced_ignores_index [OF b, where e = env_ex and i = 0 and r = 0 and j = 1
      and p = "[3, 2, 1, 0]" and s = True and ?r0.0 = 0]
  show ?thesis by simp
qed

section \<open>The class pools are positional\<close>

text \<open>
  C10. When the balanced selection returns indices, they are the first \<open>batch_size\<close>
  entries of a permutation of the picks, and the picks are \<open>k\<close> indices from the pool of
  each loop counter \<open>0, ..., len(classes) - 1\<close> and of no other number, \<open>k\<close> being the
  quota; so every selected sample has a label below \<open>len(classes)\<close>. The pool of the
  counter \<open>cls\<close> holds exactly the positions whose label equals \<open>cls\<close>, each once. The
  values stored in \<open>classes\<close> are never read: replacing them leaves every pool unchanged,
  and the selection too as long as the number of classes is kept. For a dataset with
  one label per file, whose labels are exactly \<open>0, ..., n_classes - 1\<close> and are all
  class identifiers, the pools of the loop cover the dataset and are pairwise disjoint.
  A sample whose label is not below \<open>len(classes)\<close> is in no pool of the loop, whether or
  not that label occurs in \<open>classes\<close>.
\<close>

theorem cls_pool_positional:
  "(balanced_indices e g r = Inr (idxs, r') \<longrightarrow>
      (\<exists>k parts shuffled. cls_size g = Inr k
         \<and> length parts = length (classes g)
         \<and> (\<forall>c < length (classes g). length (parts ! c) = nat k
               \<and> mset (parts ! c) \<subseteq># mset (cls_pool g c))
         \<and> mset shuffled = mset (concat parts)
         \<and> idxs = take (batch_size g) shuffled)
      \<and> (\<forall>j \<in> set idxs. j < length (filenames g) \<and> labels g ! j < length (classes g)))
   \<and> set (cls_pool g cls) = {i. i < length (filenames g) \<and> labels g ! i = cls}
   \<and> distinct (cls_pool g cls)
   \<and> cls_pool (g\<lparr>classes := cs\<rparr>) cls = cls_pool g cls
   \<and> (length cs = length (classes g) \<longrightarrow>
        balanced_indices e (g\<lparr>classes := cs\<rparr>) r = balanced_indices e g r)
   \<and> (length (labels g) = length (filenames g) \<and> set (labels g) = {0..<n_classes g}
        \<and> set (labels g) \<subseteq> set (classes g) \<longrightarrow>
        (\<Union>c \<in> {0..<length (classes g)}. set (cls_pool g c)) = {0..<length (filenames g)}
        \<and> (\<forall>c d. c \<noteq> d \<longrightarrow> set (cls_pool g c) \<inter> set (cls_pool g d) = {}))
   \<and> (\<not> labels g ! i < length (classes g) \<longrightarrow>
        (\<forall>c < length (classes g). i \<notin> set (cls_pool g c)))"
proof (intro conjI impI)
  assume a: "balanced_indices e g r = Inr (idxs, r')"
  show "\<exists>k parts shuffled. cls_size g = Inr k
         \<and> length parts = length (classes g)
         \<and> (\<forall>c < length (classes g). length (parts ! c) = nat k
               \<and> mset (parts ! c) \<subseteq># mset (cls_pool g c))
         \<and> mset shuffled = mset (concat parts)
         \<and> idxs = take (batch_size g) shuffled"
    using a by (rule balanced_indices_structure)
  show "\<forall>j \<in> set idxs. j < length (filenames g) \<and> labels g ! j < length (classes g)"
    using balanced_indices_labels [OF a] by blast
next
  show "set (cls_pool g cls) = {i. i < length (filenames g) \<and> labels g ! i = cls}"
    by (rule cls_pool_set)
  show "distinct (cls_pool g cls)" by (simp add: cls_pool_def)
  show pc: "cls_pool (g\<lparr>classes := cs\<rparr>) cls = cls_pool g cls" for cls
    by (simp add: cls_pool_def)
  have bp: "balanced_picks (rand e) (g\<lparr>classes := cs\<rparr>) k xs r
      = balanced_picks (rand e) g k xs r" for k xs r
    by (induction xs arbitrary: r) (simp_all add: pc split: sum.splits prod.splits)
  have cs: "cls_size (g\<lparr>classes := cs\<rparr>) = cls_size g" by (simp add: cls_size_def)
  show "balanced_indices e (g\<lparr>classes := cs\<rparr>) r = balanced_indices e g r"
    if "length cs = length (classes g)"
    using that by (simp add: balanced_indices_def bp cs split: sum.splits prod.splits)
  show "\<forall>c < length (classes g). i \<notin> set (cls_pool g c)"
    if "\<not> labels g ! i < length (classes g)"
    using that by (auto simp: cls_pool_def)
next
  assume a: "length (labels g) = length (filenames g) \<and> set (labels g) = {0..<n_classes g}
        \<and> set (labels g) \<subseteq> set (classes g)"
  have "n_classes g = card (set (labels g))" using a by simp
  also have "\<dots> \<le> card (set (classes g))"
  proof (rule card_mono)
    show "finite (set (classes g))" by simp
    show "set (labels g) \<subseteq> set (classes g)" using a by blast
  qed
  also have "\<dots> \<le> length (classes g)" by (rule card_length)
  finally have n: "n_classes g \<le> length (classes g)" .
  have "labels g ! i < length (classes g)" if "i < length (filenames g)" for i
  proof -
    have "i < length (labels g)" using that a by simp
    then have "labels g ! i \<in> set (labels g)" by (rule nth_mem)
    also have "set (labels g) = {0..<n_classes g}" using a by simp
    finally show ?thesis using n by simp
  qed
  then show "(\<Union>c \<in> {0..<length (classes g)}. set (cls_pool g c)) = {0..<length (filenames g)}"
    by (auto simp: cls_pool_def)
  show "\<forall>c d. c \<noteq> d \<longrightarrow> set (cls_pool g c) \<inter> set (cls_pool g d) = {}"
    by (auto simp: cls_pool_def)
qed

theorem cls_pool_positional_witness:
  "(\<Union>c \<in> {0..<length (classes balanced_ex)}. set (cls_pool balanced_ex c))
      = {0..<length (filenames balanced_ex)}
   \<and> set (cls_pool balanced_ex 0) \<inter> set (cls_pool balanced_ex 1) = {}
   \<and> labels ids_ex ! 1 \<in> set (classes ids_ex)
   \<and> 1 \<notin> set (cls_pool ids_ex 0) \<and> 1 \<notin> set (cls_pool ids_ex 1)
   \<and> balanced_indices env_const short_ex 0 = Inr ([0], 0)
   \<and> length (classes short_ex) = 1 \<and> n_classes short_ex = 2
   \<and> labels short_ex ! 0 < length (classes short_ex)"
proof -
  have h: "length (labels balanced_ex) = length (filenames balanced_ex)
      \<and> set (labels balanced_ex) = {0..<n_classes balanced_ex}
      \<and> set (labels balanced_ex) \<subseteq> set (classes balanced_ex)"
    by (auto simp: balanced_ex_def)
  have n: "\<not> labels ids_ex ! 1 < length (classes ids_ex)"
    by (simp add: ids_ex_def balanced_ex_def)
  have m: "labels ids_ex ! 1 \<in> set (classes ids_ex)"
    by (simp add: ids_ex_def balanced_ex_def)
  have l: "length (classes ids_ex) = 2"
    by (simp add: ids_ex_def balanced_ex_def)
  note t = cls_pool_positional [where g = balanced_ex and cls = 0 and cs = "[]"
      and e = env_ex and r = 0 and i = 0 and idxs = "[]" and r' = 0]
  note t6 = t [THEN conjunct2, THEN conjunct2, THEN conjunct2, THEN conjunct2,
      THEN conjunct2, THEN conjunct1, THEN mp, OF h]
  have u: "(\<Union>c \<in> {0..<length (classes balanced_ex)}. set (cls_pool balanced_ex c))
      = {0..<length (filenames balanced_ex)}"
    by (rule t6 [THEN conjunct1])
  have d: "set (cls_pool balanced_ex 0) \<inter> set (cls_pool balanced_ex 1) = {}"
    using t6 [THEN conjunct2, THEN spec, THEN spec, of 0 1] by simp
  note t' = cls_pool_positional [where g = ids_ex and cls = 0 and cs = "[]"
      and e = env_ex and r = 0 and i = 1 and idxs = "[]" and r' = 0]
  note t7 = t' [THEN conjunct2, THEN conjunct2, THEN conjunct2, THEN conjunct2,
      THEN conjunct2, THEN conjunct2, THEN mp, OF n]
  have k0: "1 \<notin> set (cls_pool ids_ex 0)"
    using t7 [THEN spec, of 0] l by simp
  have k1: "1 \<notin> set (cls_pool ids_ex 1)"
    using t7 [THEN spec, of 1] l by simp
  have q: "cls_size short_ex = Inr 1"
    by (subst cls_size_no_aug) (simp_all add: short_ex_def balanced_ex_def)
  have p: "balanced_picks (rand env_const) short_ex 1 [0..<length (classes short_ex)] 0
      = Inr ([0], 0)"
    unfolding env_const_def env_ex_def short_ex_def balanced_ex_def by code_simp
  have s: "random_shuffle (rand env_const) [0 :: nat] 0 = ([0], 0)"
    unfolding env_const_def env_ex_def by code_simp
  have f: "\<not> augment short_ex" "batch_size short_ex = 2"
    by (simp_all add: short_ex_def balanced_ex_def)
  have f': "length (classes short_ex) = 1" "n_classes short_ex = 2"
    by (simp_all add: short_ex_def balanced_ex_def)
  have b: "balanced_indices env_const short_ex 0 = Inr ([0], 0)"
    unfolding balanced_indices_def q by (simp add: p s f)
  note t'' = cls_pool_positional [where g = short_ex and cls = 0 and cs = "[]"
      and e = env_const and r = 0 and i = 0 and idxs = "[0]" and r' = 0]
  note t1 = t'' [THEN conjunct1, THEN mp, OF b, THEN conjunct2]
  have w: "labels short_ex ! 0 < length (classes short_ex)"
    using t1 by simp
  show ?thesis
    by (intro conjI) (rule u d m k0 k1 b f' w)+
qed

end
